theory Spec2Isabelle
  imports Main
begin

section \<open>Board and rule primitives (packages/shared/src/game-logic.ts)\<close>

text \<open>
  Sizes are the string literals 'P' | 'M' | 'G' of types.ts, colours the four palette
  entries. A cell is the object \<open>{P, M, G}\<close> with one nullable colour per size; the board is
  the array of nine cells produced by \<open>createEmptyBoard\<close>.
\<close>

datatype size = P | M | G

datatype color = red | blue | green | yellow

record cell =
  slotP :: "color option"
  slotM :: "color option"
  slotG :: "color option"

type_synonym board = "cell list"

text \<open>\<open>cell[size]\<close>: reading and writing the slot selected by a size.\<close>

fun slot :: "cell \<Rightarrow> size \<Rightarrow> color option" where
  "slot c P = slotP c"
| "slot c M = slotM c"
| "slot c G = slotG c"

fun setSlot :: "cell \<Rightarrow> size \<Rightarrow> color option \<Rightarrow> cell" where
  "setSlot c P v = c\<lparr>slotP := v\<rparr>"
| "setSlot c M v = c\<lparr>slotM := v\<rparr>"
| "setSlot c G v = c\<lparr>slotG := v\<rparr>"

definition emptyCell :: cell where
  "emptyCell = \<lparr>slotP = None, slotM = None, slotG = None\<rparr>"

definition createEmptyBoard :: board where
  "createEmptyBoard = replicate 9 emptyCell"

text \<open>
  \<open>isLegalMove(board, cellIndex, size, color?)\<close>. The index is a JavaScript number, here an
  integer; the range test comes first, then the test of the target slot, then the nesting
  test per size. The colour argument is never read.
\<close>

definition isLegalMove :: "board \<Rightarrow> int \<Rightarrow> size \<Rightarrow> color option \<Rightarrow> bool" where
  "isLegalMove b cellIndex sz col =
     (if cellIndex < 0 \<or> cellIndex > 8 then False
      else let c = b ! nat cellIndex in
        if slot c sz \<noteq> None then False
        else if sz = G then slotG c = None
        else if sz = M then slotM c = None \<and> slotG c = None
        else slotP c = None \<and> slotM c = None \<and> slotG c = None)"

text \<open>
  The sources hold a second copy of game-logic.ts, whose \<open>isLegalMove\<close> tests the sizes in
  the order P, M, G without the separate test of the target slot.
\<close>

definition isLegalMoveCopy :: "board \<Rightarrow> int \<Rightarrow> size \<Rightarrow> color option \<Rightarrow> bool" where
  "isLegalMoveCopy b cellIndex sz col =
     (if cellIndex < 0 \<or> cellIndex > 8 then False
      else let c = b ! nat cellIndex in
        if sz = P then slotP c = None \<and> slotM c = None \<and> slotG c = None
        else if sz = M then slotM c = None \<and> slotG c = None
        else slotG c = None)"

text \<open>\<open>getVisiblePiece(cell)\<close>: the largest piece present, G before M before P.\<close>

definition getVisiblePiece :: "cell \<Rightarrow> color option" where
  "getVisiblePiece c =
     (if slotG c \<noteq> None then slotG c
      else if slotM c \<noteq> None then slotM c
      else if slotP c \<noteq> None then slotP c
      else None)"

text \<open>The table of lines inside \<open>checkSameColorAlignment\<close>, in the order of the source.\<close>

definition winLines :: "nat list list" where
  "winLines = [[0, 1, 2], [3, 4, 5], [6, 7, 8],
               [0, 3, 6], [1, 4, 7], [2, 5, 8],
               [0, 4, 8], [2, 4, 6]]"

text \<open>
  \<open>checkSameColorAlignment\<close>: the \<open>for\<close> loop over the lines returns true at the first line
  whose three cells all show the colour (\<open>line.every\<close>), false when the table is exhausted.
\<close>

fun checkLines :: "board \<Rightarrow> color \<Rightarrow> nat list list \<Rightarrow> bool" where
  "checkLines b col [] = False"
| "checkLines b col (line # rest) =
     (if list_all (\<lambda>cellIndex. getVisiblePiece (b ! cellIndex) = Some col) line then True
      else checkLines b col rest)"

definition checkSameColorAlignment :: "board \<Rightarrow> color \<Rightarrow> bool" where
  "checkSameColorAlignment b col = checkLines b col winLines"

definition checkWinConditions :: "board \<Rightarrow> color \<Rightarrow> bool" where
  "checkWinConditions b col = checkSameColorAlignment b col"

text \<open>
  Helpers for the array methods the source uses: \<open>findIndex\<close> (JavaScript's \<open>-1\<close> is
  \<open>None\<close>); \<open>find\<close>, \<open>filter\<close>, \<open>every\<close> and \<open>some\<close> are \<open>List.find\<close>, \<open>filter\<close>,
  \<open>list_all\<close> and \<open>list_ex\<close>.
\<close>

fun findIndex :: "('a \<Rightarrow> bool) \<Rightarrow> 'a list \<Rightarrow> nat option" where
  "findIndex f [] = None"
| "findIndex f (x # xs) = (if f x then Some 0 else map_option Suc (findIndex f xs))"

section \<open>Player record (apps/server/src/models/Player.ts)\<close>

record inventory =
  invP :: int
  invM :: int
  invG :: int

fun pieces :: "inventory \<Rightarrow> size \<Rightarrow> int" where
  "pieces iv P = invP iv"
| "pieces iv M = invM iv"
| "pieces iv G = invG iv"

fun setPieces :: "inventory \<Rightarrow> size \<Rightarrow> int \<Rightarrow> inventory" where
  "setPieces iv P n = iv\<lparr>invP := n\<rparr>"
| "setPieces iv M n = iv\<lparr>invM := n\<rparr>"
| "setPieces iv G n = iv\<lparr>invG := n\<rparr>"

record player =
  pid :: string
  nickname :: string
  color :: color
  inventory :: inventory
  connected :: bool
  skipsInARow :: nat
  isEliminated :: bool
  isHost :: bool

text \<open>
  \<open>String.prototype.trim\<close> on the code units a \<open>char\<close> can hold: tab, line feed, vertical
  tab, form feed, carriage return, space and the no-break space.
\<close>

definition isWhiteSpace :: "char \<Rightarrow> bool" where
  "isWhiteSpace ch \<longleftrightarrow> of_char ch \<in> {9, 10, 11, 12, 13, 32, 160 :: nat}"

definition trim :: "string \<Rightarrow> string" where
  "trim s = rev (dropWhile isWhiteSpace (rev (dropWhile isWhiteSpace s)))"

record playerOptions =
  opt_id :: "string option"
  opt_nickname :: string
  opt_color :: color
  opt_connected :: "bool option"
  opt_isHost :: "bool option"

datatype error =
    EmptyNickname
  | NicknameTooLong
  | PlayerCount
  | NotEnoughColors
  | TooFewPlayers
  | NoPieceLeft
  | NoSuchPlayer

text \<open>
  The constructor. \<open>options.id || uuidv4()\<close> takes the generated identifier when the id is
  absent or the empty string; the generated identifier is the parameter \<open>uuid\<close>.
\<close>

definition newPlayer :: "string \<Rightarrow> playerOptions \<Rightarrow> error + player" where
  "newPlayer uuid opts =
     (if opt_nickname opts = [] \<or> length (trim (opt_nickname opts)) = 0 then Inl EmptyNickname
      else if length (opt_nickname opts) > 20 then Inl NicknameTooLong
      else Inr \<lparr>pid = (case opt_id opts of None \<Rightarrow> uuid
                        | Some i \<Rightarrow> if i = [] then uuid else i),
                nickname = trim (opt_nickname opts),
                color = opt_color opts,
                inventory = \<lparr>invP = 3, invM = 3, invG = 3\<rparr>,
                connected = (case opt_connected opts of None \<Rightarrow> True | Some c \<Rightarrow> c),
                skipsInARow = 0,
                isEliminated = False,
                isHost = (case opt_isHost opts of None \<Rightarrow> False | Some h \<Rightarrow> h)\<rparr>)"

definition hasPiece :: "player \<Rightarrow> size \<Rightarrow> bool" where
  "hasPiece p sz \<longleftrightarrow> pieces (inventory p) sz > 0"

definition usePiece :: "player \<Rightarrow> size \<Rightarrow> error + player" where
  "usePiece p sz =
     (if \<not> hasPiece p sz then Inl NoPieceLeft
      else Inr (p\<lparr>inventory := setPieces (inventory p) sz (pieces (inventory p) sz - 1)\<rparr>))"

definition resetSkips :: "player \<Rightarrow> player" where
  "resetSkips p = p\<lparr>skipsInARow := 0\<rparr>"

definition incrementSkips :: "player \<Rightarrow> player" where
  "incrementSkips p = p\<lparr>skipsInARow := skipsInARow p + 1\<rparr>"

definition eliminate :: "player \<Rightarrow> player" where
  "eliminate p = p\<lparr>isEliminated := True\<rparr>"

definition setConnected :: "bool \<Rightarrow> player \<Rightarrow> player" where
  "setConnected c p = p\<lparr>connected := c\<rparr>"

definition setHost :: "bool \<Rightarrow> player \<Rightarrow> player" where
  "setHost h p = p\<lparr>isHost := h\<rparr>"

section \<open>Shared turn helpers (game-logic.ts)\<close>

text \<open>
  \<open>hasLegalMoves\<close>: the two nested \<open>for\<close> loops return true at the first cell and size the
  player still owns and may place.
\<close>

definition hasLegalMoves :: "board \<Rightarrow> player \<Rightarrow> bool" where
  "hasLegalMoves b p =
     list_ex (\<lambda>cellIndex.
        list_ex (\<lambda>sz. pieces (inventory p) sz > 0
                      \<and> isLegalMove b (int cellIndex) sz (Some (color p))) [P, M, G])
       [0..<9]"

text \<open>The exported function \<open>isDraw(board, players)\<close>; the name \<open>isDraw\<close> is kept for the field.\<close>

definition isDrawFn :: "board \<Rightarrow> player list \<Rightarrow> bool" where
  "isDrawFn b ps = list_all (\<lambda>p. \<not> hasLegalMoves b p) ps"

text \<open>
  Player objects are shared by reference between an array and the arrays filtered from it:
  a reference is the position of the object in \<open>players\<close>. \<open>activeRefs\<close> is
  \<open>players.filter(p => !p.isEliminated && p.connected)\<close> as a list of references.
\<close>

definition isActive :: "player \<Rightarrow> bool" where
  "isActive p \<longleftrightarrow> \<not> isEliminated p \<and> connected p"

definition activeRefs :: "player list \<Rightarrow> nat list" where
  "activeRefs ps = filter (\<lambda>i. isActive (ps ! i)) [0..<length ps]"

text \<open>
  \<open>getNextPlayer(players, currentPlayerId)\<close>; the current id may be null, which equals no
  player's id. The result is the reference of the chosen player.
\<close>

definition getNextPlayer :: "player list \<Rightarrow> string option \<Rightarrow> nat option" where
  "getNextPlayer ps cur =
     (let activePlayers = activeRefs ps in
      if length activePlayers = 0 then None
      else case findIndex (\<lambda>i. Some (pid (ps ! i)) = cur) activePlayers of
             None \<Rightarrow> Some (activePlayers ! 0)
           | Some currentIndex \<Rightarrow>
               Some (activePlayers ! ((currentIndex + 1) mod length activePlayers)))"

section \<open>Match engine (apps/server/src/models/Game.ts)\<close>

datatype gameStatus = waiting | playing | finished

record game =
  board :: board
  players :: "player list"
  currentPlayerId :: "string option"
  status :: gameStatus
  winnerId :: "string option"
  isDraw :: bool
  startedAt :: "int option"
  finishedAt :: "int option"
  turnStartTime :: "int option"
  turnTimeLimit :: int

definition newGame :: game where
  "newGame = \<lparr>board = createEmptyBoard, players = [], currentPlayerId = None,
              status = waiting, winnerId = None, isDraw = False, startedAt = None,
              finishedAt = None, turnStartTime = None, turnTimeLimit = 60\<rparr>"

text \<open>
  \<open>initialize(players)\<close>. \<open>now\<close> is the reading of \<open>Date.now()\<close> (milliseconds, an integer), \<open>randomIndex\<close> the value of
  \<open>Math.floor(Math.random() * players.length)\<close>, \<open>uuid i\<close> the identifier \<open>uuidv4()\<close> would
  give the player at position \<open>i\<close>. The palette is indexed by position. A random index
  outside the player list, which \<open>Math.random() < 1\<close> excludes, would make
  \<open>this.players[randomIndex].id\<close> throw.
\<close>

definition palette :: "color list" where
  "palette = [red, blue, green, yellow]"

fun initPlayers :: "(nat \<Rightarrow> string) \<Rightarrow> nat \<Rightarrow> player list \<Rightarrow> error + player list" where
  "initPlayers uuid index [] = Inr []"
| "initPlayers uuid index (p # ps) =
     (if index \<ge> length palette then Inl NotEnoughColors
      else case newPlayer (uuid index)
                  \<lparr>opt_id = Some (pid p), opt_nickname = nickname p,
                   opt_color = palette ! index, opt_connected = Some (connected p),
                   opt_isHost = Some (isHost p)\<rparr> of
             Inl e \<Rightarrow> Inl e
           | Inr q \<Rightarrow> (case initPlayers uuid (index + 1) ps of
                         Inl e \<Rightarrow> Inl e
                       | Inr qs \<Rightarrow> Inr (q # qs)))"

definition initialize :: "int \<Rightarrow> nat \<Rightarrow> (nat \<Rightarrow> string) \<Rightarrow> player list \<Rightarrow> game \<Rightarrow> error + game" where
  "initialize now randomIndex uuid ps g =
     (if length ps < 2 \<or> length ps > 4 then Inl PlayerCount
      else case initPlayers uuid 0 ps of
             Inl e \<Rightarrow> Inl e
           | Inr qs \<Rightarrow>
               if randomIndex \<ge> length qs then Inl NoSuchPlayer
               else
               Inr (g\<lparr>players := qs, board := createEmptyBoard,
                      currentPlayerId := Some (pid (qs ! randomIndex)),
                      status := playing, startedAt := Some now, winnerId := None,
                      isDraw := False, finishedAt := None, turnStartTime := Some now\<rparr>))"

text \<open>\<open>getCurrentPlayer()\<close>, as a reference; \<open>!this.currentPlayerId\<close> holds for null and ''.\<close>

definition noCurrentId :: "game \<Rightarrow> bool" where
  "noCurrentId g \<longleftrightarrow> currentPlayerId g = None \<or> currentPlayerId g = Some []"

definition getCurrentPlayer :: "game \<Rightarrow> nat option" where
  "getCurrentPlayer g =
     (if noCurrentId g then None
      else findIndex (\<lambda>p. Some (pid p) = currentPlayerId g) (players g))"

definition isValidMove :: "game \<Rightarrow> string \<Rightarrow> int \<Rightarrow> size \<Rightarrow> bool" where
  "isValidMove g playerId cellIndex sz =
     (if status g \<noteq> playing then False
      else if currentPlayerId g \<noteq> Some playerId then False
      else case findIndex (\<lambda>p. pid p = playerId) (players g) of
             None \<Rightarrow> False
           | Some i \<Rightarrow>
               if isEliminated (players g ! i) then False
               else if \<not> hasPiece (players g ! i) sz then False
               else isLegalMove (board g) cellIndex sz None)"

text \<open>\<open>getActivePlayers()\<close> is \<open>activeRefs (players g)\<close>.\<close>

text \<open>
  \<open>moveToNextPlayer()\<close>. It calls itself after an automatic skip; a call that never returns
  has the value \<open>None\<close>.
\<close>

partial_function (option) moveToNextPlayer :: "int \<Rightarrow> game \<Rightarrow> game option" where
  "moveToNextPlayer now g =
     (let activePlayers = activeRefs (players g) in
      if length activePlayers = 0
      then Some (g\<lparr>status := finished, finishedAt := Some now\<rparr>)
      else
        let playersWithMoves =
              filter (\<lambda>i. hasLegalMoves (board g) (players g ! i)) activePlayers in
        if length playersWithMoves = 0
        then Some (g\<lparr>isDraw := True, status := finished, finishedAt := Some now\<rparr>)
        else case getNextPlayer (players g) (currentPlayerId g) of
               None \<Rightarrow> Some (g\<lparr>status := finished, finishedAt := Some now\<rparr>)
             | Some nextPlayer \<Rightarrow>
                 if \<not> hasLegalMoves (board g) (players g ! nextPlayer)
                 then moveToNextPlayer now
                        (g\<lparr>currentPlayerId := Some (pid (players g ! nextPlayer)),
                           players := (players g)
                             [nextPlayer := (players g ! nextPlayer)
                                \<lparr>skipsInARow := skipsInARow (players g ! nextPlayer) + 1\<rparr>]\<rparr>)
                 else Some (g\<lparr>currentPlayerId := Some (pid (players g ! nextPlayer)),
                             turnStartTime := Some now\<rparr>))"

declare moveToNextPlayer.simps [code]

text \<open>
  \<open>applyMove(playerId, cellIndex, size)\<close>: the returned boolean and the state after the call.
\<close>

definition applyMove :: "int \<Rightarrow> game \<Rightarrow> string \<Rightarrow> int \<Rightarrow> size \<Rightarrow> (bool \<times> game) option" where
  "applyMove now g playerId cellIndex sz =
     (if \<not> isValidMove g playerId cellIndex sz then Some (False, g)
      else case findIndex (\<lambda>p. pid p = playerId) (players g) of
        None \<Rightarrow> None
      | Some i \<Rightarrow>
         let player = players g ! i;
             b' = list_update (board g) (nat cellIndex)
                    (setSlot (board g ! nat cellIndex) sz (Some (color player)))
         in (case usePiece player sz of
              Inl e \<Rightarrow> None
            | Inr used \<Rightarrow>
               let ps' = list_update (players g) i (resetSkips used);
                   g1 = g\<lparr>board := b', players := ps'\<rparr>
               in if checkWinConditions b' (color player)
                  then Some (True, g1\<lparr>status := finished, winnerId := Some (pid player),
                                      finishedAt := Some now\<rparr>)
                  else if isDrawFn b' ps'
                  then Some (True, g1\<lparr>status := finished, isDraw := True,
                                      finishedAt := Some now\<rparr>)
                  else map_option (Pair True) (moveToNextPlayer now g1)))"

text \<open>The increment and the elimination test shared by both skip methods.\<close>

definition skipMark :: "player \<Rightarrow> player" where
  "skipMark p = (let q = incrementSkips p in if skipsInARow q \<ge> 2 then eliminate q else q)"

definition skipCurrentPlayer :: "int \<Rightarrow> game \<Rightarrow> game option" where
  "skipCurrentPlayer now g =
     (if status g \<noteq> playing \<or> noCurrentId g then Some g
      else case getCurrentPlayer g of
             None \<Rightarrow> moveToNextPlayer now g
           | Some i \<Rightarrow> moveToNextPlayer now
                        (g\<lparr>players := (players g)[i := skipMark (players g ! i)]\<rparr>))"

definition checkGameEnd :: "int \<Rightarrow> game \<Rightarrow> game" where
  "checkGameEnd now g =
     (let activePlayers = activeRefs (players g) in
      if length activePlayers < 2
      then let g1 = g\<lparr>status := finished, finishedAt := Some now\<rparr> in
           if length activePlayers = 1
           then g1\<lparr>winnerId := Some (pid (players g ! (activePlayers ! 0)))\<rparr>
           else g1
      else g)"

definition skipTurn :: "int \<Rightarrow> game \<Rightarrow> (bool \<times> game) option" where
  "skipTurn now g =
     (if status g \<noteq> playing \<or> noCurrentId g then Some (False, g)
      else case getCurrentPlayer g of
             None \<Rightarrow> Some (False, g)
           | Some i \<Rightarrow>
               (case moveToNextPlayer now
                       (g\<lparr>players := (players g)[i := skipMark (players g ! i)]\<rparr>) of
                  None \<Rightarrow> None
                | Some g2 \<Rightarrow> Some (True, checkGameEnd now g2)))"

definition reset :: "game \<Rightarrow> game" where
  "reset g = g\<lparr>board := createEmptyBoard, currentPlayerId := None, status := waiting,
               winnerId := None, isDraw := False, startedAt := None, finishedAt := None,
               turnStartTime := None,
               players := map (\<lambda>p. p\<lparr>inventory := \<lparr>invP = 3, invM = 3, invG = 3\<rparr>,
                                      skipsInARow := 0, isEliminated := False\<rparr>) (players g)\<rparr>"

section \<open>Room (apps/server/src/models/Room.ts)\<close>

text \<open>
  The room holds its own player records and its match. \<open>replayVotes\<close> is the
  \<open>Map<string, boolean>\<close> of the source. The identifier of the room and the uuid of a
  player without id are parameters, as are the clock and the random index.
\<close>

record room =
  roomId :: string
  roomName :: string
  capacity :: nat
  isPrivate :: bool
  code :: "string option"
  createdAt :: int
  expiresAt :: int
  hostId :: string
  roomPlayers :: "player list"
  roomGame :: game
  replayVotes :: "string \<rightharpoonup> bool"
  replayDeadline :: "int option"
  disconnectionTime :: "int option"

record roomOptions =
  ropt_id :: "string option"
  ropt_name :: string
  ropt_capacity :: nat
  ropt_isPrivate :: "bool option"
  ropt_code :: "string option"
  ropt_hostId :: string

datatype roomError =
    EmptyRoomName
  | RoomNameTooLong
  | BadCapacity
  | BadCode
  | PlayerError error

definition oneHour :: int where
  "oneHour = 60 * 60 * 1000"

definition newRoom :: "int \<Rightarrow> string \<Rightarrow> roomOptions \<Rightarrow> roomError + room" where
  "newRoom now uuid opts =
     (if ropt_name opts = [] \<or> length (trim (ropt_name opts)) = 0 then Inl EmptyRoomName
      else if length (ropt_name opts) > 50 then Inl RoomNameTooLong
      else if ropt_capacity opts < 2 \<or> ropt_capacity opts > 4 then Inl BadCapacity
      else if ropt_isPrivate opts = Some True
              \<and> (case ropt_code opts of None \<Rightarrow> True | Some c \<Rightarrow> c = [] \<or> length c < 4)
           then Inl BadCode
      else Inr \<lparr>roomId = (case ropt_id opts of None \<Rightarrow> uuid
                           | Some i \<Rightarrow> if i = [] then uuid else i),
                roomName = trim (ropt_name opts),
                capacity = ropt_capacity opts,
                isPrivate = (case ropt_isPrivate opts of None \<Rightarrow> False | Some b \<Rightarrow> b),
                code = ropt_code opts,
                createdAt = now,
                expiresAt = now + oneHour,
                hostId = ropt_hostId opts,
                roomPlayers = [],
                roomGame = newGame,
                replayVotes = Map.empty,
                replayDeadline = None,
                disconnectionTime = None\<rparr>)"

definition resetTTL :: "int \<Rightarrow> room \<Rightarrow> room" where
  "resetTTL now r = r\<lparr>expiresAt := now + oneHour\<rparr>"

text \<open>\<open>startGame()\<close>: the match is initialised from the room's player list.\<close>

definition startGame :: "int \<Rightarrow> nat \<Rightarrow> (nat \<Rightarrow> string) \<Rightarrow> room \<Rightarrow> roomError + room" where
  "startGame now randomIndex uuid r =
     (if length (roomPlayers r) < 2 then Inl (PlayerError TooFewPlayers)
      else case initialize now randomIndex uuid (roomPlayers r) (roomGame r) of
             Inl e \<Rightarrow> Inl (PlayerError e)
           | Inr g \<Rightarrow> Inr (resetTTL now (r\<lparr>roomGame := g\<rparr>)))"

text \<open>
  \<open>addPlayer(player)\<close>: the colour is the first palette entry no seat of the room uses;
  the room stores a record of its own, built by the constructor.
\<close>

definition addPlayer ::
  "int \<Rightarrow> nat \<Rightarrow> (nat \<Rightarrow> string) \<Rightarrow> room \<Rightarrow> player \<Rightarrow> roomError + (bool \<times> room)" where
  "addPlayer now randomIndex uuid r player =
     (if length (roomPlayers r) \<ge> capacity r then Inr (False, r)
      else if list_ex (\<lambda>p. pid p = pid player) (roomPlayers r) then Inr (False, r)
      else case List.find (\<lambda>c. c \<notin> set (map color (roomPlayers r))) palette of
             None \<Rightarrow> Inr (False, r)
           | Some availableColor \<Rightarrow>
              (case newPlayer (uuid 0)
                      \<lparr>opt_id = Some (pid player), opt_nickname = nickname player,
                       opt_color = availableColor, opt_connected = Some (connected player),
                       opt_isHost = Some (pid player = hostId r)\<rparr> of
                 Inl e \<Rightarrow> Inl (PlayerError e)
               | Inr roomPlayer \<Rightarrow>
                   let r1 = r\<lparr>roomPlayers := roomPlayers r @ [roomPlayer]\<rparr>
                   in if length (roomPlayers r1) = capacity r1
                      then (case startGame now randomIndex uuid r1 of
                              Inl e \<Rightarrow> Inl e
                            | Inr r2 \<Rightarrow> Inr (True, r2))
                      else Inr (True, r1)))"

definition transferHost :: "room \<Rightarrow> room" where
  "transferHost r =
     (case roomPlayers r of
        [] \<Rightarrow> r
      | newHost # others \<Rightarrow>
          r\<lparr>roomPlayers := setHost True newHost # map (setHost False) others,
            hostId := pid newHost\<rparr>)"

text \<open>\<open>removePlayer(playerId)\<close>; the end-of-game check runs only while the match is playing.\<close>

definition removePlayer :: "int \<Rightarrow> room \<Rightarrow> string \<Rightarrow> bool \<times> room" where
  "removePlayer now r playerId =
     (case findIndex (\<lambda>p. pid p = playerId) (roomPlayers r) of
        None \<Rightarrow> (False, r)
      | Some playerIndex \<Rightarrow>
          let removedPlayer = roomPlayers r ! playerIndex;
              r1 = r\<lparr>roomPlayers := take playerIndex (roomPlayers r)
                                       @ drop (playerIndex + 1) (roomPlayers r)\<rparr>;
              r2 = (if isHost removedPlayer \<and> length (roomPlayers r1) > 0
                    then transferHost r1 else r1);
              r3 = (if status (roomGame r2) = playing
                    then r2\<lparr>roomGame := checkGameEnd now (roomGame r2)\<rparr> else r2)
          in (True, r3))"

text \<open>\<open>getPlayer(playerId)\<close> as a reference into the room's player list.\<close>

definition getPlayer :: "room \<Rightarrow> string \<Rightarrow> nat option" where
  "getPlayer r playerId = findIndex (\<lambda>p. pid p = playerId) (roomPlayers r)"

text \<open>
  What the transport handlers of index.ts do on a socket's disconnect, and a later
  reconnect: \<open>room.getPlayer(id).setConnected(...)\<close>.
\<close>

definition seatSetConnected :: "room \<Rightarrow> string \<Rightarrow> bool \<Rightarrow> room" where
  "seatSetConnected r playerId c =
     (case getPlayer r playerId of
        None \<Rightarrow> r
      | Some i \<Rightarrow> r\<lparr>roomPlayers := (roomPlayers r)[i := setConnected c (roomPlayers r ! i)]\<rparr>)"

subsection \<open>Replay vote of the room\<close>

datatype voteResult = pending | accepted | rejected

definition startReplayVoting :: "int \<Rightarrow> room \<Rightarrow> room" where
  "startReplayVoting now r = r\<lparr>replayVotes := Map.empty, replayDeadline := Some (now + 30 * 1000)\<rparr>"

text \<open>\<open>!this.replayDeadline\<close> holds for null and for 0.\<close>

definition noDeadline :: "room \<Rightarrow> bool" where
  "noDeadline r \<longleftrightarrow> replayDeadline r = None \<or> replayDeadline r = Some 0"

definition pastDeadline :: "int \<Rightarrow> room \<Rightarrow> bool" where
  "pastDeadline now r = (case replayDeadline r of None \<Rightarrow> False | Some t \<Rightarrow> now > t)"

definition castReplayVote :: "int \<Rightarrow> room \<Rightarrow> string \<Rightarrow> bool \<Rightarrow> bool \<times> room" where
  "castReplayVote now r playerId vote =
     (if noDeadline r \<or> pastDeadline now r then (False, r)
      else if \<not> list_ex (\<lambda>p. pid p = playerId \<and> connected p) (roomPlayers r) then (False, r)
      else (True, r\<lparr>replayVotes := (replayVotes r)(playerId \<mapsto> vote)\<rparr>))"

definition checkReplayVotes :: "int \<Rightarrow> room \<Rightarrow> voteResult" where
  "checkReplayVotes now r =
     (if noDeadline r then rejected
      else let connectedPlayers = filter connected (roomPlayers r) in
        if pastDeadline now r then rejected
        else if \<not> list_all (\<lambda>p. replayVotes r (pid p) \<noteq> None) connectedPlayers then pending
        else if list_all (\<lambda>p. replayVotes r (pid p) = Some True) connectedPlayers then accepted
        else rejected)"

text \<open>\<open>replay()\<close>: the match is reset and initialised again from the room's player list.\<close>

definition replay :: "int \<Rightarrow> nat \<Rightarrow> (nat \<Rightarrow> string) \<Rightarrow> room \<Rightarrow> roomError + room" where
  "replay now randomIndex uuid r =
     (case initialize now randomIndex uuid (roomPlayers r) (reset (roomGame r)) of
        Inl e \<Rightarrow> Inl (PlayerError e)
      | Inr g \<Rightarrow> Inr (resetTTL now (r\<lparr>roomGame := g, replayVotes := Map.empty,
                                      replayDeadline := None\<rparr>)))"

section \<open>Replay vote service (apps/server/src/services/ReplayManager.ts)\<close>

text \<open>
  A \<open>Map\<close> whose size and values are read in insertion order is a list of pairs:
  \<open>mapSet\<close> is \<open>Map.prototype.set\<close> (an existing key keeps its place), \<open>mapDelete\<close> is
  \<open>delete\<close>, \<open>map_of\<close> is \<open>get\<close>.
\<close>

fun mapSet :: "'k \<Rightarrow> 'v \<Rightarrow> ('k \<times> 'v) list \<Rightarrow> ('k \<times> 'v) list" where
  "mapSet k v [] = [(k, v)]"
| "mapSet k v (kv # kvs) = (if fst kv = k then (k, v) # kvs else kv # mapSet k v kvs)"

definition mapDelete :: "'k \<Rightarrow> ('k \<times> 'v) list \<Rightarrow> ('k \<times> 'v) list" where
  "mapDelete k kvs = filter (\<lambda>kv. fst kv \<noteq> k) kvs"

text \<open>
  The results 'approved' | 'rejected' | 'expired' and the four kinds of \<open>ReplayVoteEvent\<close>,
  each with the fields the source gives it (room id first).
\<close>

datatype replayResult = Approved | Rejected | Expired

datatype replayVoteEvent =
    vote_started string int
  | vote_cast string string bool
  | vote_completed string replayResult
  | vote_expired string replayResult

text \<open>
  \<open>ReplayVoteState\<close>; its fields \<open>roomId\<close> and \<open>isActive\<close> carry the prefix \<open>rv_\<close>.
\<close>

record replayVoteState =
  rv_roomId :: string
  votes :: "(string \<times> bool) list"
  requiredVoters :: "string list"
  startTime :: int
  timeoutMs :: int
  rv_isActive :: bool

text \<open>
  The manager: the vote state per room, the timer per room (a timer is the time at which
  it fires; what it runs is \<open>handleVoteTimeout\<close>), the default window, and the events handed
  to the subscribed callbacks by \<open>emitEvent\<close>, oldest first.
\<close>

record replayManager =
  voteStates :: "(string \<times> replayVoteState) list"
  voteTimeouts :: "(string \<times> int) list"
  events :: "replayVoteEvent list"
  voteTimeoutMs :: int

definition newReplayManager :: "int option \<Rightarrow> replayManager" where
  "newReplayManager opt =
     \<lparr>voteStates = [], voteTimeouts = [], events = [],
      voteTimeoutMs = (case opt of None \<Rightarrow> 30000 | Some t \<Rightarrow> t)\<rparr>"

definition emitEvent :: "replayVoteEvent \<Rightarrow> replayManager \<Rightarrow> replayManager" where
  "emitEvent e m = m\<lparr>events := events m @ [e]\<rparr>"

definition stopReplayVote :: "string \<Rightarrow> replayManager \<Rightarrow> bool \<times> replayManager" where
  "stopReplayVote rid m =
     (let m1 = (case map_of (voteTimeouts m) rid of
                  None \<Rightarrow> m
                | Some timer \<Rightarrow> m\<lparr>voteTimeouts := mapDelete rid (voteTimeouts m)\<rparr>)
      in case map_of (voteStates m) rid of
           None \<Rightarrow> (False, m1)
         | Some voteState \<Rightarrow>
             if rv_isActive voteState
             then (True, m1\<lparr>voteStates := mapDelete rid (voteStates m1)\<rparr>)
             else (False, m1))"

text \<open>
  \<open>startReplayVote(room, options?)\<close>: \<open>opt\<close> is the window given in the options, if any. The
  required voters are the ids of the seats of the room that are connected now.
\<close>

definition startReplayVote ::
  "int \<Rightarrow> room \<Rightarrow> int option \<Rightarrow> replayManager \<Rightarrow> bool \<times> replayManager" where
  "startReplayVote now r opt m =
     (if status (roomGame r) \<noteq> finished then (False, m)
      else
        let m1 = snd (stopReplayVote (roomId r) m);
            voteTimeout = (case opt of None \<Rightarrow> voteTimeoutMs m1 | Some t \<Rightarrow> t);
            presentPlayers = filter connected (roomPlayers r)
        in if length presentPlayers = 0 then (False, m1)
           else
             let voteState = \<lparr>rv_roomId = roomId r, votes = [],
                               requiredVoters = map pid presentPlayers,
                               startTime = now, timeoutMs = voteTimeout, rv_isActive = True\<rparr>;
                 m2 = m1\<lparr>voteStates := mapSet (roomId r) voteState (voteStates m1),
                         voteTimeouts := mapSet (roomId r) (now + voteTimeout) (voteTimeouts m1)\<rparr>
             in (True, emitEvent (vote_started (roomId r) voteTimeout) m2))"

definition completeVote :: "string \<Rightarrow> replayManager \<Rightarrow> replayManager" where
  "completeVote rid m =
     (case map_of (voteStates m) rid of
        None \<Rightarrow> m
      | Some voteState \<Rightarrow>
          if \<not> rv_isActive voteState then m
          else
            let m1 = (case map_of (voteTimeouts m) rid of
                        None \<Rightarrow> m
                      | Some timer \<Rightarrow> m\<lparr>voteTimeouts := mapDelete rid (voteTimeouts m)\<rparr>);
                allVotes = map snd (votes voteState);
                isUnanimous = (length allVotes = length (requiredVoters voteState)
                               \<and> list_all (\<lambda>vote. vote = True) allVotes);
                result = (if isUnanimous then Approved else Rejected);
                m2 = emitEvent (vote_completed rid result) m1
            in m2\<lparr>voteStates := mapDelete rid (voteStates m2)\<rparr>)"

definition castVote :: "string \<Rightarrow> string \<Rightarrow> bool \<Rightarrow> replayManager \<Rightarrow> bool \<times> replayManager" where
  "castVote rid playerId vote m =
     (case map_of (voteStates m) rid of
        None \<Rightarrow> (False, m)
      | Some voteState \<Rightarrow>
          if \<not> rv_isActive voteState then (False, m)
          else if playerId \<notin> set (requiredVoters voteState) then (False, m)
          else
            let voteState' = voteState\<lparr>votes := mapSet playerId vote (votes voteState)\<rparr>;
                m1 = emitEvent (vote_cast rid playerId vote)
                       (m\<lparr>voteStates := mapSet rid voteState' (voteStates m)\<rparr>)
            in if length (votes voteState') = length (requiredVoters voteState')
               then (True, completeVote rid m1)
               else (True, m1))"

definition handleVoteTimeout :: "string \<Rightarrow> replayManager \<Rightarrow> replayManager" where
  "handleVoteTimeout rid m =
     (case map_of (voteStates m) rid of
        None \<Rightarrow> m
      | Some voteState \<Rightarrow>
          if \<not> rv_isActive voteState then m
          else
            let m1 = emitEvent (vote_expired rid Expired)
                       (m\<lparr>voteTimeouts := mapDelete rid (voteTimeouts m)\<rparr>)
            in m1\<lparr>voteStates := mapDelete rid (voteStates m1)\<rparr>)"

section \<open>Notions used to reason about turn advancement\<close>

text \<open>
  \<open>eraseSkips\<close> forgets the skip counter, the only field of a seat that turn advancement
  writes. \<open>autoSkip g j\<close> is the state in which \<open>moveToNextPlayer\<close> calls itself after the
  seat at reference \<open>j\<close> was found without a legal move. \<open>startPos g\<close> is the position, in
  the list of active seats, of the seat \<open>getNextPlayer\<close> selects. \<open>canMove g i\<close> says that
  the seat at reference \<open>i\<close> has a legal move. \<open>turnFrame\<close> lists what turn advancement
  leaves alone.
\<close>

definition eraseSkips :: "player \<Rightarrow> player" where
  "eraseSkips p = p\<lparr>skipsInARow := 0\<rparr>"

definition autoSkip :: "game \<Rightarrow> nat \<Rightarrow> game" where
  "autoSkip g j = g\<lparr>currentPlayerId := Some (pid (players g ! j)),
                    players := (players g)[j := (players g ! j)
                       \<lparr>skipsInARow := skipsInARow (players g ! j) + 1\<rparr>]\<rparr>"

definition startPos :: "game \<Rightarrow> nat" where
  "startPos g = (case findIndex (\<lambda>i. Some (pid (players g ! i)) = currentPlayerId g)
                        (activeRefs (players g)) of
                  None \<Rightarrow> 0
                | Some k \<Rightarrow> (k + 1) mod length (activeRefs (players g)))"

definition canMove :: "game \<Rightarrow> nat \<Rightarrow> bool" where
  "canMove g i = hasLegalMoves (board g) (players g ! i)"

definition turnFrame :: "game \<Rightarrow> game \<Rightarrow> bool" where
  "turnFrame g g' \<longleftrightarrow>
     board g' = board g \<and> map eraseSkips (players g') = map eraseSkips (players g)
     \<and> winnerId g' = winnerId g \<and> startedAt g' = startedAt g
     \<and> turnTimeLimit g' = turnTimeLimit g"

section \<open>Notions of the specification and concrete positions\<close>

text \<open>The order of sizes the rule comments state: P below M below G.\<close>

fun sizeRank :: "size \<Rightarrow> nat" where
  "sizeRank P = 0"
| "sizeRank M = 1"
| "sizeRank G = 2"

text \<open>
  Legality in the specification's words: the cell index is within 0..8 and the target slot
  of the cell is empty.
\<close>

definition slotRuleLegal :: "board \<Rightarrow> int \<Rightarrow> size \<Rightarrow> bool" where
  "slotRuleLegal b cellIndex sz \<longleftrightarrow>
     0 \<le> cellIndex \<and> cellIndex \<le> 8 \<and> slot (b ! nat cellIndex) sz = None"

text \<open>A board whose cell 0 holds only a blue M.\<close>

definition slotBoard :: board where
  "slotBoard = createEmptyBoard[0 := \<lparr>slotP = None, slotM = Some blue, slotG = None\<rparr>]"

text \<open>
  The eight lines as the specification describes them: the three rows, the three columns
  and the two diagonals of the row-major 3x3 grid.
\<close>

definition specLines :: "nat set set" where
  "specLines = {{3 * r, 3 * r + 1, 3 * r + 2} | r. r < 3}
             \<union> {{c, c + 3, c + 6} | c. c < 3}
             \<union> {{0, 4, 8}, {2, 4, 6}}"

text \<open>
  The visible piece in the specification's words: \<open>v\<close> is the colour of the largest occupied
  size slot, or nothing when no slot is occupied.
\<close>

definition isVisible :: "cell \<Rightarrow> color option \<Rightarrow> bool" where
  "isVisible c v \<longleftrightarrow>
     (v = None \<and> (\<forall>s. slot c s = None))
   \<or> (v \<noteq> None \<and> (\<exists>s. slot c s = v \<and> (\<forall>s'. sizeRank s < sizeRank s' \<longrightarrow> slot c s' = None)))"

text \<open>A board on which red shows on the top row, over a hidden blue piece in cell 1.\<close>

definition rowBoard :: board where
  "rowBoard = createEmptyBoard
     [0 := \<lparr>slotP = Some red, slotM = None, slotG = None\<rparr>,
      1 := \<lparr>slotP = Some blue, slotM = Some red, slotG = None\<rparr>,
      2 := \<lparr>slotP = None, slotM = None, slotG = Some red\<rparr>]"

section \<open>Turn order in the specification's words, and concrete matches\<close>

text \<open>
  The scan of the seats in seat order from position \<open>start\<close>, wrapping around.
  \<open>prevSeat g\<close> is the position of the seat named by the current seat id. \<open>nextMover g\<close>
  is the first active seat with a legal move met by the scan that starts just after the
  previous seat when that seat is still active, and at the first seat otherwise.
\<close>

definition scanFrom :: "nat \<Rightarrow> nat \<Rightarrow> nat list" where
  "scanFrom n start = [start..<n] @ [0..<start]"

definition prevSeat :: "game \<Rightarrow> nat option" where
  "prevSeat g = (case currentPlayerId g of
                   None \<Rightarrow> None
                 | Some c \<Rightarrow> findIndex (\<lambda>p. pid p = c) (players g))"

definition scanStart :: "game \<Rightarrow> nat" where
  "scanStart g = (case prevSeat g of
                    None \<Rightarrow> 0
                  | Some c \<Rightarrow> if isActive (players g ! c) then c + 1 else 0)"

definition nextMover :: "game \<Rightarrow> nat option" where
  "nextMover g = List.find (\<lambda>i. isActive (players g ! i) \<and> canMove g i)
                   (scanFrom (length (players g)) (scanStart g))"

definition seatId :: "game \<Rightarrow> nat \<Rightarrow> string" where
  "seatId g i = pid (players g ! i)"

text \<open>
  The rule as the specification words it: the first active seat met by scanning the seats
  from the position after the seat with id \<open>prev\<close>, wrapping around.
\<close>

definition specNextSeat :: "player list \<Rightarrow> string \<Rightarrow> string option" where
  "specNextSeat ps prev =
     (case findIndex (\<lambda>p. pid p = prev) ps of
        None \<Rightarrow> None
      | Some c \<Rightarrow> map_option (\<lambda>i. pid (ps ! i))
                   (List.find (\<lambda>i. isActive (ps ! i)) (scanFrom (length ps) (c + 1))))"

text \<open>
  The rule on skip counters that holds of the code: a seat whose counter is at least 2 is
  eliminated, unless it has no legal move on the board (only such seats are skipped
  automatically).
\<close>

definition skipRuleUnlessStuck :: "game \<Rightarrow> bool" where
  "skipRuleUnlessStuck g \<longleftrightarrow>
     (\<forall>p \<in> set (players g). skipsInARow p \<ge> 2 \<longrightarrow> isEliminated p \<or> \<not> hasLegalMoves (board g) p)"

text \<open>
  The states a match goes through: \<open>initialize\<close> from any list of players on any earlier
  state, then the methods of \<open>Game\<close> that write the state, in any order and with any
  arguments. Nothing else writes the seats of a match: the room and the connection manager
  write the room's own records.
\<close>

inductive reachable :: "game \<Rightarrow> bool" where
  started: "initialize now randomIndex uuid ps g0 = Inr g \<Longrightarrow> reachable g"
| moved: "reachable g \<Longrightarrow> applyMove now g playerId cellIndex sz = Some (ok, g') \<Longrightarrow> reachable g'"
| timedOut: "reachable g \<Longrightarrow> skipTurn now g = Some (ok, g') \<Longrightarrow> reachable g'"
| skipped: "reachable g \<Longrightarrow> skipCurrentPlayer now g = Some g' \<Longrightarrow> reachable g'"
| ended: "reachable g \<Longrightarrow> reachable (checkGameEnd now g)"
| cleared: "reachable g \<Longrightarrow> reachable (reset g)"

text \<open>
  What a forced skip does to the seats, from the state \<open>h\<close> whose current seat is at
  position \<open>i\<close> to the state \<open>g'\<close>: the seats are as many, the counter of that seat is one
  more, that seat is eliminated exactly when it was before or its counter has reached 2,
  and no other seat changes its elimination flag.
\<close>

definition skippedSeat :: "game \<Rightarrow> nat \<Rightarrow> game \<Rightarrow> bool" where
  "skippedSeat h i g' \<longleftrightarrow>
     length (players g') = length (players h)
   \<and> skipsInARow (players g' ! i) = skipsInARow (players h ! i) + 1
   \<and> (isEliminated (players g' ! i) \<longleftrightarrow>
        isEliminated (players h ! i) \<or> skipsInARow (players g' ! i) \<ge> 2)
   \<and> (\<forall>k < length (players h). k \<noteq> i \<longrightarrow>
        isEliminated (players g' ! k) = isEliminated (players h ! k))"

text \<open>Three seats as a room would hand them to \<open>initialize\<close>.\<close>

definition seatA :: player where
  "seatA = \<lparr>pid = ''a'', nickname = ''Ann'', color = red,
            inventory = \<lparr>invP = 3, invM = 3, invG = 3\<rparr>, connected = True,
            skipsInARow = 0, isEliminated = False, isHost = True\<rparr>"

definition seatB :: player where
  "seatB = \<lparr>pid = ''b'', nickname = ''Bob'', color = blue,
            inventory = \<lparr>invP = 3, invM = 3, invG = 3\<rparr>, connected = True,
            skipsInARow = 0, isEliminated = False, isHost = False\<rparr>"

definition seatC :: player where
  "seatC = \<lparr>pid = ''c'', nickname = ''Cy'', color = green,
            inventory = \<lparr>invP = 3, invM = 3, invG = 3\<rparr>, connected = True,
            skipsInARow = 0, isEliminated = False, isHost = False\<rparr>"

definition freshIds :: "nat \<Rightarrow> string" where
  "freshIds i = ''fresh''"

text \<open>A started match, or the unstarted one when \<open>initialize\<close> throws.\<close>

definition started :: "nat \<Rightarrow> player list \<Rightarrow> game" where
  "started randomIndex ps =
     (case initialize 0 randomIndex freshIds ps newGame of Inl e \<Rightarrow> newGame | Inr g \<Rightarrow> g)"

text \<open>Playing a list of moves, each of which must be accepted.\<close>

fun playMoves :: "game \<Rightarrow> (string \<times> int \<times> size) list \<Rightarrow> game option" where
  "playMoves g [] = Some g"
| "playMoves g ((p, c, s) # ms) =
     (case applyMove 0 g p c s of
        Some (True, g') \<Rightarrow> playMoves g' ms
      | _ \<Rightarrow> None)"

definition verdict :: "game \<Rightarrow> gameStatus \<times> string option \<times> bool" where
  "verdict g = (status g, winnerId g, isDraw g)"

definition skipStates :: "game \<Rightarrow> (string \<times> nat \<times> bool) list" where
  "skipStates g = map (\<lambda>p. (pid p, skipsInARow p, isEliminated p)) (players g)"

definition uneliminatedIds :: "game \<Rightarrow> string list" where
  "uneliminatedIds g = map pid (filter (\<lambda>p. \<not> isEliminated p) (players g))"

text \<open>
  Two seats, a starting. Twelve accepted moves fill every cell and leave b with small
  pieces only, which need an empty cell: b has no legal move, a still has its three G.
\<close>

definition abGame :: game where
  "abGame = started 0 [seatA, seatB]"

definition fillingMoves :: "(string \<times> int \<times> size) list" where
  "fillingMoves = [(''a'', 0, P), (''b'', 1, M), (''a'', 2, P), (''b'', 1, G),
                   (''a'', 3, P), (''b'', 4, M), (''a'', 7, M), (''b'', 4, G),
                   (''a'', 8, M), (''b'', 5, M), (''a'', 0, M), (''b'', 6, G)]"

definition stuckGame :: game where
  "stuckGame = (case playMoves abGame fillingMoves of None \<Rightarrow> newGame | Some g \<Rightarrow> g)"

text \<open>
  The same two seats after the single move M of a on cell 0: it is the turn of b, and
  cell 0 holds a red M and nothing else. \<open>seatStock\<close> lists, per seat, the id, the
  elimination flag and the number of pieces of a size.
\<close>

definition coveredGame :: game where
  "coveredGame = (case playMoves abGame [(''a'', 0, M)] of None \<Rightarrow> newGame | Some g \<Rightarrow> g)"

definition seatStock :: "game \<Rightarrow> size \<Rightarrow> (string \<times> bool \<times> int) list" where
  "seatStock g sz = map (\<lambda>p. (pid p, isEliminated p, pieces (inventory p) sz)) (players g)"

text \<open>From there a plays two more G: b is passed over twice.\<close>

definition twiceSkipped :: "game option" where
  "twiceSkipped = playMoves stuckGame [(''a'', 0, G), (''a'', 2, G)]"

definition skippedTwice :: game where
  "skippedTwice = (case twiceSkipped of None \<Rightarrow> newGame | Some g \<Rightarrow> g)"

text \<open>From there, instead, the turn of a times out twice.\<close>

definition afterTimeouts :: "(bool \<times> game) option" where
  "afterTimeouts = (case skipTurn 5 stuckGame of
                      None \<Rightarrow> None
                    | Some (ok, g) \<Rightarrow> skipTurn 7 g)"

text \<open>
  Three seats, b starting: b times out, c and a play, b times out again and is
  eliminated.
\<close>

definition trioGame :: game where
  "trioGame = started 1 [seatA, seatB, seatC]"

definition trioEnd :: "(bool \<times> game) option" where
  "trioEnd = (case skipTurn 1 trioGame of
                None \<Rightarrow> None
              | Some (ok1, g1) \<Rightarrow>
                 (case applyMove 2 g1 ''c'' 0 P of
                    None \<Rightarrow> None
                  | Some (ok2, g2) \<Rightarrow>
                     (case applyMove 3 g2 ''a'' 1 P of
                        None \<Rightarrow> None
                      | Some (ok3, g3) \<Rightarrow> skipTurn 4 g3)))"

definition turnReport :: "bool \<times> game \<Rightarrow> bool \<times> gameStatus \<times> string option \<times> string option" where
  "turnReport r = (fst r, status (snd r), currentPlayerId (snd r),
                   specNextSeat (players (snd r)) ''b'')"

text \<open>Two seats of which b was disconnected when the match started; a is skipped twice.\<close>

definition loneGame :: game where
  "loneGame = started 0 [seatA, seatB\<lparr>connected := False\<rparr>]"

definition loneEnd :: "game option" where
  "loneEnd = (case skipCurrentPlayer 1 loneGame of
                None \<Rightarrow> None
              | Some g \<Rightarrow> skipCurrentPlayer 2 g)"

definition activeIds :: "game \<Rightarrow> string list" where
  "activeIds g = map (seatId g) (activeRefs (players g))"

text \<open>The state in which the second of these skips enters turn advancement.\<close>

definition loneMarked :: game where
  "loneMarked = (case skipCurrentPlayer 1 loneGame of
                   None \<Rightarrow> newGame
                 | Some g \<Rightarrow> g\<lparr>players := (players g)[0 := skipMark (players g ! 0)]\<rparr>)"

text \<open>
  The state of the second timeout of \<open>afterTimeouts\<close> between its call of
  \<open>moveToNextPlayer\<close> and its call of \<open>checkGameEnd\<close>.
\<close>

definition drawnBeforeCheck :: "game option" where
  "drawnBeforeCheck =
     (case skipTurn 5 stuckGame of
        None \<Rightarrow> None
      | Some (ok, g) \<Rightarrow>
         (case getCurrentPlayer g of
            None \<Rightarrow> None
          | Some i \<Rightarrow> moveToNextPlayer 7
                        (g\<lparr>players := (players g)[i := skipMark (players g ! i)]\<rparr>)))"

section \<open>Seats of a room and of its match\<close>

text \<open>
  A seat as the constructor leaves it: a non-empty id, and a nickname that is trimmed,
  non-empty and of at most 20 characters.
\<close>

definition wellFormedSeat :: "player \<Rightarrow> bool" where
  "wellFormedSeat p \<longleftrightarrow> pid p \<noteq> [] \<and> nickname p \<noteq> [] \<and> trim (nickname p) = nickname p
                       \<and> length (nickname p) \<le> 20"

definition seatLook :: "player \<Rightarrow> string \<times> string \<times> color" where
  "seatLook p = (pid p, nickname p, color p)"

definition seatsOfRoom :: "room \<Rightarrow> (string \<times> string \<times> color) list" where
  "seatsOfRoom r = map seatLook (roomPlayers r)"

definition seatsOfMatch :: "room \<Rightarrow> (string \<times> string \<times> color) list" where
  "seatsOfMatch r = map seatLook (players (roomGame r))"

text \<open>
  What a started or restarted match takes from the room \<open>r\<close>: the room keeps its seats,
  the match has the same ids and nicknames in the same order, and the colour of the seat
  at position \<open>i\<close> is the palette entry \<open>i\<close>.
\<close>

definition seatsKept :: "room \<Rightarrow> room \<Rightarrow> bool" where
  "seatsKept r r' \<longleftrightarrow>
     roomPlayers r' = roomPlayers r
   \<and> map pid (players (roomGame r')) = map pid (roomPlayers r)
   \<and> map nickname (players (roomGame r')) = map nickname (roomPlayers r)
   \<and> map color (players (roomGame r')) = take (length (roomPlayers r)) palette"

definition seatD :: player where
  "seatD = \<lparr>pid = ''d'', nickname = ''Dee'', color = yellow,
            inventory = \<lparr>invP = 3, invM = 3, invG = 3\<rparr>, connected = True,
            skipsInARow = 0, isEliminated = False, isHost = False\<rparr>"

text \<open>Joins and leaves applied in order, each of which must succeed.\<close>

datatype roomOp = Join player | Leave string

fun runOps :: "room \<Rightarrow> roomOp list \<Rightarrow> room option" where
  "runOps r [] = Some r"
| "runOps r (Join p # ops) =
     (case addPlayer 0 0 freshIds r p of
        Inl e \<Rightarrow> None
      | Inr (ok, r') \<Rightarrow> if ok then runOps r' ops else None)"
| "runOps r (Leave i # ops) =
     (case removePlayer 0 r i of (ok, r') \<Rightarrow> if ok then runOps r' ops else None)"

text \<open>A public room for three, hosted by a, as \<open>newRoom\<close> builds it.\<close>

definition tableOptions :: roomOptions where
  "tableOptions = \<lparr>ropt_id = None, ropt_name = ''Table'', ropt_capacity = 3,
                   ropt_isPrivate = None, ropt_code = None, ropt_hostId = ''a''\<rparr>"

definition openTable :: room where
  "openTable = \<lparr>roomId = ''r1'', roomName = ''Table'', capacity = 3, isPrivate = False,
                code = None, createdAt = 0, expiresAt = oneHour, hostId = ''a'',
                roomPlayers = [], roomGame = newGame, replayVotes = Map.empty,
                replayDeadline = None, disconnectionTime = None\<rparr>"

text \<open>a and b join, a leaves again, then c and d join and the match starts.\<close>

definition rejoined :: "room option" where
  "rejoined = runOps openTable [Join seatA, Join seatB, Leave ''a'', Join seatC, Join seatD]"

text \<open>a and b have joined the room for three; the match has not started.\<close>

definition pairTable :: room where
  "pairTable = (case runOps openTable [Join seatA, Join seatB] of
                  None \<Rightarrow> openTable | Some r \<Rightarrow> r)"

section \<open>Replay votes: connected seats and concrete votes\<close>

text \<open>
  The ids of the seats of the room that are connected now, and the window of the vote.
  \<open>playedTable\<close> is a room of three whose match a has won; \<open>votingTable\<close> is that room
  with a vote opened at time 100, all three seats connected. In \<open>dropOutcome\<close> seat c
  disconnects after the vote was opened; in \<open>lateOutcome\<close> seat c is disconnected when
  the vote is opened and connects during the window.
\<close>

definition connectedIds :: "room \<Rightarrow> string list" where
  "connectedIds r = map pid (filter connected (roomPlayers r))"

definition voteOpen :: "int \<Rightarrow> room \<Rightarrow> bool" where
  "voteOpen now r \<longleftrightarrow> \<not> noDeadline r \<and> \<not> pastDeadline now r"

definition playedTable :: "room option" where
  "playedTable =
     (case runOps openTable [Join seatA, Join seatB, Join seatC] of
        None \<Rightarrow> None
      | Some r \<Rightarrow>
         (case playMoves (roomGame r)
                 [(''a'', 0, P), (''b'', 3, P), (''c'', 6, P), (''a'', 1, P), (''b'', 4, P),
                  (''c'', 7, P), (''a'', 2, P)] of
            None \<Rightarrow> None
          | Some g \<Rightarrow> Some (r\<lparr>roomGame := g\<rparr>)))"

definition votingTable :: "room option" where
  "votingTable = map_option (startReplayVoting 100) playedTable"

definition dropOutcome :: "(bool \<times> voteResult) option" where
  "dropOutcome =
     (case votingTable of
        None \<Rightarrow> None
      | Some r0 \<Rightarrow>
          let r1 = seatSetConnected r0 ''c'' False;
              r2 = snd (castReplayVote 101 r1 ''a'' True);
              r3 = snd (castReplayVote 102 r2 ''b'' True)
          in Some (fst (castReplayVote 103 r3 ''c'' True), checkReplayVotes 104 r3))"

definition lateOutcome :: "(string list \<times> bool \<times> voteResult) option" where
  "lateOutcome =
     (case playedTable of
        None \<Rightarrow> None
      | Some r \<Rightarrow>
          let r0 = startReplayVoting 100 (seatSetConnected r ''c'' False);
              r1 = seatSetConnected r0 ''c'' True;
              r2 = snd (castReplayVote 101 r1 ''a'' True);
              r3 = snd (castReplayVote 102 r2 ''b'' True)
          in Some (connectedIds r0, fst (castReplayVote 103 r3 ''c'' True),
                   checkReplayVotes 104 r3))"

definition voteRoom :: room where
  "voteRoom = (case votingTable of None \<Rightarrow> openTable | Some r \<Rightarrow> r)"

text \<open>
  The vote of a room that the manager holds open, the votes recorded in it as a map, and
  what the manager keeps true of an open vote: the required voters are distinct, no seat
  has two votes, and only required voters have votes. \<open>everyoneVoted voters t\<close> and
  \<open>everyoneYes voters t\<close> say that every seat of \<open>voters\<close> has a vote, respectively the vote
  yes, in the record \<open>t\<close>.
\<close>

definition openVote :: "replayManager \<Rightarrow> string \<Rightarrow> replayVoteState option" where
  "openVote m rid = (case map_of (voteStates m) rid of
                       None \<Rightarrow> None
                     | Some vs \<Rightarrow> if rv_isActive vs then Some vs else None)"

definition tally :: "replayVoteState \<Rightarrow> string \<rightharpoonup> bool" where
  "tally vs = map_of (votes vs)"

definition voteStateOk :: "replayVoteState \<Rightarrow> bool" where
  "voteStateOk vs \<longleftrightarrow> distinct (requiredVoters vs) \<and> distinct (map fst (votes vs))
                     \<and> set (map fst (votes vs)) \<subseteq> set (requiredVoters vs)"

definition everyoneVoted :: "string list \<Rightarrow> (string \<rightharpoonup> bool) \<Rightarrow> bool" where
  "everyoneVoted voters t \<longleftrightarrow> (\<forall>q \<in> set voters. t q \<noteq> None)"

definition everyoneYes :: "string list \<Rightarrow> (string \<rightharpoonup> bool) \<Rightarrow> bool" where
  "everyoneYes voters t \<longleftrightarrow> (\<forall>q \<in> set voters. t q = Some True)"

text \<open>
  The room of three after its match, a vote of the manager started on it at time 100, and
  the state of that vote.
\<close>

definition playedRoom :: room where
  "playedRoom = (case playedTable of None \<Rightarrow> openTable | Some r \<Rightarrow> r)"

definition startedVote :: replayManager where
  "startedVote = snd (startReplayVote 100 playedRoom None (newReplayManager None))"

definition firstState :: replayVoteState where
  "firstState = \<lparr>rv_roomId = ''r1'', votes = [], requiredVoters = [''a'', ''b'', ''c''],
                  startTime = 100, timeoutMs = 30000, rv_isActive = True\<rparr>"

section \<open>Player objects in a store\<close>










text \<open>
  \<open>ConnectionManager.disconnect\<close> while the match is in progress: the record found by
  \<open>room.getPlayer\<close> is eliminated on an explicit leave and marked disconnected otherwise.
\<close>

datatype disconnectReason = explicit | network | timeout




section \<open>Legality and win detection\<close>

lemma size_all: "(\<forall>s. Q s) \<longleftrightarrow> Q P \<and> Q M \<and> Q G"
  by (metis size.exhaust)

lemma size_ex: "(\<exists>s. Q s) \<longleftrightarrow> Q P \<or> Q M \<or> Q G"
  by (metis size.exhaust)

lemma isLegalMove_copies_agree: "isLegalMoveCopy b cellIndex sz col = isLegalMove b cellIndex sz col"
  by (cases sz) (auto simp: isLegalMoveCopy_def isLegalMove_def Let_def)

text \<open>
  C1, as stated: the legality check is true exactly when the target slot is empty, whatever
  the other two slots of the cell hold. It fails: with a blue M in cell 0 the P slot of that
  cell is empty, yet a P is refused there, while the same P is accepted on the empty cell.
\<close>

theorem isLegalMove_slot_counterexample:
  "slot (slotBoard ! 0) P = None \<and> \<not> isLegalMove slotBoard 0 P (Some red)
   \<and> isLegalMove createEmptyBoard 0 P (Some red)"
  by (simp add: slotBoard_def createEmptyBoard_def emptyCell_def isLegalMove_def)

text \<open>
  C1, amended: the legality check is true exactly when the cell index is within 0..8 and
  the target slot and every larger slot of the cell are empty (G needs G empty, M needs M
  and G empty, P needs all three empty); the colour is not consulted.
\<close>

theorem isLegalMove_nesting:
  "isLegalMove b cellIndex sz col \<longleftrightarrow>
     0 \<le> cellIndex \<and> cellIndex \<le> 8 \<and>
     (\<forall>s'. sizeRank sz \<le> sizeRank s' \<longrightarrow> slot (b ! nat cellIndex) s' = None)"
  by (cases sz) (auto simp: isLegalMove_def Let_def size_all)

theorem isLegalMove_nesting_witness:
  "isLegalMove slotBoard 0 G (Some red) \<and> \<not> isLegalMove slotBoard 0 M (Some red)
   \<and> sizeRank M \<le> sizeRank M \<and> slot (slotBoard ! nat 0) M \<noteq> None"
  using isLegalMove_nesting [of slotBoard 0 G "Some red"]
        isLegalMove_nesting [of slotBoard 0 M "Some red"]
  by (simp add: slotBoard_def createEmptyBoard_def emptyCell_def size_all)

lemma getVisiblePiece_isVisible: "getVisiblePiece c = v \<longleftrightarrow> isVisible c v"
  by (cases v) (auto simp: getVisiblePiece_def isVisible_def size_all size_ex)

lemma checkLines_iff:
  "checkLines b col ls \<longleftrightarrow> (\<exists>l \<in> set ls. \<forall>i \<in> set l. getVisiblePiece (b ! i) = Some col)"
  by (induction ls) (auto simp: list_all_iff)

lemma image_lt3: "{f r | r. r < (3::nat)} = {f 0, f 1, f 2}"
proof -
  have "\<And>r::nat. r < 3 \<longleftrightarrow> r = 0 \<or> r = 1 \<or> r = 2" by auto
  then show ?thesis by auto
qed

lemma spec_rows:
  "{{3 * r, 3 * r + 1, 3 * r + 2} | r. r < (3::nat)} = {{0, 1, 2}, {3, 4, 5}, {6, 7, 8}}"
  using image_lt3 [of "\<lambda>r. {3 * r, 3 * r + 1, 3 * r + 2}"] by (simp add: numeral_2_eq_2)

lemma spec_cols:
  "{{c, c + 3, c + 6} | c. c < (3::nat)} = {{0, 3, 6}, {1, 4, 7}, {2, 5, 8}}"
  using image_lt3 [of "\<lambda>c. {c, c + 3, c + 6}"] by simp

lemma bex_specLines:
  "(\<exists>L \<in> specLines. Q L) \<longleftrightarrow>
     Q {0, 1, 2} \<or> Q {3, 4, 5} \<or> Q {6, 7, 8} \<or> Q {0, 3, 6} \<or> Q {1, 4, 7} \<or> Q {2, 5, 8}
     \<or> Q {0, 4, 8} \<or> Q {2, 4, 6}"
  unfolding specLines_def spec_rows spec_cols bex_Un by simp

lemma top_row_specLines: "{0, 1, 2} \<in> specLines"
  unfolding specLines_def spec_rows by simp

text \<open>
  C8: \<open>checkWinConditions\<close> is true exactly when one of the eight lines shows the colour in
  each of its three cells, the piece shown by a cell being the colour of its largest
  occupied slot; two boards that show the same pieces give the same answer, whatever their
  hidden slots hold.
\<close>

theorem checkWinConditions_visible_lines:
  "(checkWinConditions b col \<longleftrightarrow> (\<exists>L \<in> specLines. \<forall>i \<in> L. isVisible (b ! i) (Some col)))
   \<and> ((\<forall>i < 9. getVisiblePiece (b ! i) = getVisiblePiece (b' ! i)) \<longrightarrow>
        checkWinConditions b col = checkWinConditions b' col)"
proof
  show "checkWinConditions b col \<longleftrightarrow> (\<exists>L \<in> specLines. \<forall>i \<in> L. isVisible (b ! i) (Some col))"
    unfolding checkWinConditions_def checkSameColorAlignment_def checkLines_iff
      bex_specLines winLines_def
    by (simp add: getVisiblePiece_isVisible)
next
  show "(\<forall>i < 9. getVisiblePiece (b ! i) = getVisiblePiece (b' ! i)) \<longrightarrow>
        checkWinConditions b col = checkWinConditions b' col"
    unfolding checkWinConditions_def checkSameColorAlignment_def checkLines_iff winLines_def
    by simp
qed

theorem checkWinConditions_visible_lines_witness:
  "checkWinConditions rowBoard red \<and> {0, 1, 2} \<in> specLines
   \<and> isVisible (rowBoard ! 0) (Some red) \<and> isVisible (rowBoard ! 1) (Some red)
   \<and> isVisible (rowBoard ! 2) (Some red) \<and> \<not> checkWinConditions rowBoard blue"
proof -
  have g: "getVisiblePiece (rowBoard ! 0) = Some red" "getVisiblePiece (rowBoard ! 1) = Some red"
    "getVisiblePiece (rowBoard ! 2) = Some red"
    by code_simp+
  have v: "isVisible (rowBoard ! 0) (Some red)" "isVisible (rowBoard ! 1) (Some red)"
    "isVisible (rowBoard ! 2) (Some red)"
    using g by (simp_all add: getVisiblePiece_isVisible)
  have "\<forall>i \<in> {0, 1, 2}. isVisible (rowBoard ! i) (Some red)"
    using v by simp
  then have w: "checkWinConditions rowBoard red"
    using checkWinConditions_visible_lines [of rowBoard red rowBoard] top_row_specLines
    by blast
  have nb: "\<not> checkWinConditions rowBoard blue"
    by code_simp
  from top_row_specLines v w nb show ?thesis by simp
qed

section \<open>Turn advancement\<close>

lemma activeRefs_bound: "i \<in> set (activeRefs ps) \<Longrightarrow> i < length ps"
  by (simp add: activeRefs_def)

lemma activeRefs_distinct: "distinct (activeRefs ps)"
  by (simp add: activeRefs_def)

lemma nth_update_skips:
  "ps[j := (ps ! j)\<lparr>skipsInARow := n\<rparr>] ! i =
     (if i = j \<and> j < length ps then (ps ! j)\<lparr>skipsInARow := n\<rparr> else ps ! i)"
  by (cases "j < length ps") (auto simp: nth_list_update list_update_beyond)

lemma activeRefs_update_skips [simp]:
  "activeRefs (ps[j := (ps ! j)\<lparr>skipsInARow := n\<rparr>]) = activeRefs ps"
  unfolding activeRefs_def
  by (rule filter_cong) (auto simp: isActive_def nth_update_skips)

lemma pid_update_skips [simp]:
  "pid (ps[j := (ps ! j)\<lparr>skipsInARow := n\<rparr>] ! i) = pid (ps ! i)"
  by (simp add: nth_update_skips)

lemma map_pid_update_skips [simp]:
  "map pid (ps[j := (ps ! j)\<lparr>skipsInARow := n\<rparr>]) = map pid ps"
  by (rule nth_equalityI) simp_all

lemma hasLegalMoves_skips [simp]:
  "hasLegalMoves b (p\<lparr>skipsInARow := n\<rparr>) = hasLegalMoves b p"
  by (simp add: hasLegalMoves_def)

lemma hasLegalMoves_update_skips [simp]:
  "hasLegalMoves b (ps[j := (ps ! j)\<lparr>skipsInARow := n\<rparr>] ! i) = hasLegalMoves b (ps ! i)"
  by (simp add: nth_update_skips)

lemma startPos_less: "activeRefs (players g) \<noteq> [] \<Longrightarrow> startPos g < length (activeRefs (players g))"
  by (simp add: startPos_def split: option.split)

lemma getNextPlayer_startPos:
  "activeRefs (players g) \<noteq> [] \<Longrightarrow>
   getNextPlayer (players g) (currentPlayerId g) = Some (activeRefs (players g) ! startPos g)"
  by (simp add: getNextPlayer_def startPos_def Let_def split: option.split)

lemma findIndex_nth:
  "distinct (map f xs) \<Longrightarrow> k < length xs \<Longrightarrow> findIndex (\<lambda>x. f x = f (xs ! k)) xs = Some k"
proof (induction xs arbitrary: k)
  case Nil
  then show ?case by simp
next
  case (Cons x xs)
  show ?case
  proof (cases k)
    case 0
    then show ?thesis by simp
  next
    case (Suc k')
    with Cons.prems have "f x \<noteq> f (xs ! k')" by (auto simp: image_iff)
    with Cons Suc show ?thesis by simp
  qed
qed

lemma distinct_active_pids:
  assumes "distinct (map pid ps)"
  shows "distinct (map (\<lambda>i. pid (ps ! i)) (activeRefs ps))"
proof -
  have "inj_on (\<lambda>i. pid (ps ! i)) (set (activeRefs ps))"
  proof (rule inj_onI)
    fix i j assume "i \<in> set (activeRefs ps)" "j \<in> set (activeRefs ps)"
      and e: "pid (ps ! i) = pid (ps ! j)"
    then have "i < length ps" "j < length ps" by (auto dest: activeRefs_bound)
    with e assms show "i = j"
      by (metis length_map nth_eq_iff_index_eq nth_map)
  qed
  then show ?thesis by (simp add: distinct_map activeRefs_distinct)
qed

lemma startPos_autoSkip:
  assumes d: "distinct (map pid (players g))"
    and s: "s < length (activeRefs (players g))"
  shows "startPos (autoSkip g (activeRefs (players g) ! s)) =
         (s + 1) mod length (activeRefs (players g))"
proof -
  have "findIndex (\<lambda>i. pid (players g ! i) = pid (players g ! (activeRefs (players g) ! s)))
          (activeRefs (players g)) = Some s"
    using findIndex_nth [OF distinct_active_pids [OF d] s] by simp
  then show ?thesis by (simp add: startPos_def autoSkip_def)
qed

lemma turnFrame_refl [simp]: "turnFrame g g"
  by (simp add: turnFrame_def)

lemma eraseSkips_update [simp]:
  "map eraseSkips (ps[j := (ps ! j)\<lparr>skipsInARow := n\<rparr>]) = map eraseSkips ps"
  by (rule nth_equalityI) (simp_all add: nth_update_skips eraseSkips_def)

lemma turnFrame_autoSkip: "turnFrame (autoSkip g j) g' \<Longrightarrow> turnFrame g g'"
  by (simp add: turnFrame_def autoSkip_def)

lemma canMove_autoSkip [simp]: "canMove (autoSkip g j) i = canMove g i"
  by (simp add: canMove_def autoSkip_def)

lemma players_autoSkip_active [simp]:
  "activeRefs (players (autoSkip g j)) = activeRefs (players g)"
  by (simp add: autoSkip_def)

lemma pids_autoSkip [simp]: "map pid (players (autoSkip g j)) = map pid (players g)"
  by (simp add: autoSkip_def)

lemma pid_autoSkip [simp]: "pid (players (autoSkip g j) ! i) = pid (players g ! i)"
  by (simp add: autoSkip_def)

lemma moveToNextPlayer_step:
  "moveToNextPlayer now g =
     (if activeRefs (players g) = [] then Some (g\<lparr>status := finished, finishedAt := Some now\<rparr>)
      else if filter (canMove g) (activeRefs (players g)) = []
      then Some (g\<lparr>isDraw := True, status := finished, finishedAt := Some now\<rparr>)
      else if \<not> canMove g (activeRefs (players g) ! startPos g)
      then moveToNextPlayer now (autoSkip g (activeRefs (players g) ! startPos g))
      else Some (g\<lparr>currentPlayerId :=
                      Some (pid (players g ! (activeRefs (players g) ! startPos g))),
                    turnStartTime := Some now\<rparr>))"
  by (subst moveToNextPlayer.simps)
     (simp add: Let_def getNextPlayer_startPos canMove_def [abs_def] autoSkip_def)

lemma advance_scan:
  assumes "distinct (map pid (players g))"
    and "activeRefs (players g) = act" and "act \<noteq> []"
    and "canMove g (act ! ((startPos g + d) mod length act))"
    and "\<forall>d' < d. \<not> canMove g (act ! ((startPos g + d') mod length act))"
  shows "\<exists>g'. moveToNextPlayer now g = Some g'
           \<and> currentPlayerId g' =
               Some (pid (players g ! (act ! ((startPos g + d) mod length act))))
           \<and> status g' = status g \<and> isDraw g' = isDraw g \<and> finishedAt g' = finishedAt g
           \<and> turnStartTime g' = Some now \<and> turnFrame g g'"
  using assms
proof (induction d arbitrary: g)
  case 0
  have s: "startPos g < length act"
    using startPos_less [of g] 0 by simp
  then have "act ! startPos g \<in> set act" by simp
  with 0 s have ne: "filter (canMove g) act \<noteq> []"
    by (auto simp: filter_empty_conv)
  show ?case
    using 0 s ne by (subst moveToNextPlayer_step) (simp add: turnFrame_def)
next
  case (Suc d)
  let ?n = "length act"
  let ?s = "startPos g"
  let ?g1 = "autoSkip g (act ! ?s)"
  have s: "?s < ?n"
    using startPos_less [of g] Suc.prems by simp
  have "0 < ?n" using Suc.prems by simp
  then have "(?s + Suc d) mod ?n < ?n" by simp
  then have "act ! ((?s + Suc d) mod ?n) \<in> set act" by simp
  with Suc.prems have ne: "filter (canMove g) act \<noteq> []"
    by (auto simp: filter_empty_conv)
  have no: "\<not> canMove g (act ! ?s)"
    using Suc.prems(5) s by (auto dest: spec [of _ 0])
  have s1: "startPos ?g1 = (?s + 1) mod ?n"
    using startPos_autoSkip [of g ?s] Suc.prems s by simp
  have idx: "\<And>e. (startPos ?g1 + e) mod ?n = (?s + Suc e) mod ?n"
    unfolding s1 by (simp add: mod_add_left_eq)
  have "\<exists>g'. moveToNextPlayer now ?g1 = Some g'
           \<and> currentPlayerId g' =
               Some (pid (players ?g1 ! (act ! ((startPos ?g1 + d) mod ?n))))
           \<and> status g' = status ?g1 \<and> isDraw g' = isDraw ?g1
           \<and> finishedAt g' = finishedAt ?g1
           \<and> turnStartTime g' = Some now \<and> turnFrame ?g1 g'"
  proof (rule Suc.IH)
    show "distinct (map pid (players ?g1))" using Suc.prems by simp
    show "activeRefs (players ?g1) = act" using Suc.prems by simp
    show "act \<noteq> []" by fact
    show "canMove ?g1 (act ! ((startPos ?g1 + d) mod ?n))"
      using Suc.prems(4) by (simp add: idx)
    show "\<forall>d' < d. \<not> canMove ?g1 (act ! ((startPos ?g1 + d') mod ?n))"
    proof (intro allI impI)
      fix d' assume "d' < d"
      then have "Suc d' < Suc d" by simp
      with Suc.prems(5) have "\<not> canMove g (act ! ((?s + Suc d') mod ?n))" by blast
      then show "\<not> canMove ?g1 (act ! ((startPos ?g1 + d') mod ?n))"
        by (simp add: idx)
    qed
  qed
  then obtain g' where g': "moveToNextPlayer now ?g1 = Some g'"
    "currentPlayerId g' = Some (pid (players ?g1 ! (act ! ((startPos ?g1 + d) mod ?n))))"
    "status g' = status ?g1" "isDraw g' = isDraw ?g1" "finishedAt g' = finishedAt ?g1"
    "turnStartTime g' = Some now" "turnFrame ?g1 g'"
    by blast
  have "moveToNextPlayer now g = Some g'"
    using Suc.prems ne no g'(1) by (subst moveToNextPlayer_step) simp
  moreover have "currentPlayerId g' = Some (pid (players g ! (act ! ((?s + Suc d) mod ?n))))"
    using g'(2) by (simp add: idx)
  moreover have "status g' = status g" "isDraw g' = isDraw g" "finishedAt g' = finishedAt g"
    using g'(3,4,5) by (simp_all add: autoSkip_def)
  moreover have "turnFrame g g'" using g'(7) by (rule turnFrame_autoSkip)
  ultimately show ?case using g'(6) by blast
qed

lemma moveToNextPlayer_total:
  assumes d: "distinct (map pid (players g))"
  shows "\<exists>g'. moveToNextPlayer now g = Some g' \<and> turnFrame g g'"
proof (cases "activeRefs (players g) = []")
  case True
  then show ?thesis
    by (subst moveToNextPlayer_step) (simp add: turnFrame_def)
next
  case False
  let ?act = "activeRefs (players g)"
  let ?n = "length ?act"
  let ?s = "startPos g"
  show ?thesis
  proof (cases "filter (canMove g) ?act = []")
    case True
    with False show ?thesis
      by (subst moveToNextPlayer_step) (simp add: turnFrame_def)
  next
    case ne: False
    then obtain m where m: "m < ?n" "canMove g (?act ! m)"
      by (auto simp: filter_empty_conv in_set_conv_nth)
    have s: "?s < ?n" using startPos_less [OF False] .
    let ?Q = "\<lambda>e. canMove g (?act ! ((?s + e) mod ?n))"
    have "(?s + (m + ?n - ?s)) mod ?n = m"
      using s m by simp
    with m have "?Q (m + ?n - ?s)" by simp
    then have least: "?Q (LEAST e. ?Q e)" by (rule LeastI)
    have "\<forall>d' < (LEAST e. ?Q e). \<not> ?Q d'"
      using not_less_Least by blast
    from advance_scan [OF d refl False least this, of now]
    show ?thesis by blast
  qed
qed

text \<open>
  What a returning call of \<open>moveToNextPlayer\<close> has done, by the four ways through its body;
  this needs no assumption on the seats.
\<close>

lemma advance_cases:
  assumes r: "moveToNextPlayer now h = Some g'"
    and fin: "\<And>now h. activeRefs (players h) = [] \<Longrightarrow>
                Q now h (h\<lparr>status := finished, finishedAt := Some now\<rparr>)"
    and draw: "\<And>now h. activeRefs (players h) \<noteq> [] \<Longrightarrow>
                filter (canMove h) (activeRefs (players h)) = [] \<Longrightarrow>
                Q now h (h\<lparr>isDraw := True, status := finished, finishedAt := Some now\<rparr>)"
    and stop: "\<And>now h. activeRefs (players h) \<noteq> [] \<Longrightarrow>
                canMove h (activeRefs (players h) ! startPos h) \<Longrightarrow>
                Q now h (h\<lparr>currentPlayerId :=
                          Some (pid (players h ! (activeRefs (players h) ! startPos h))),
                        turnStartTime := Some now\<rparr>)"
    and skip: "\<And>now h g'. activeRefs (players h) \<noteq> [] \<Longrightarrow>
                \<not> canMove h (activeRefs (players h) ! startPos h) \<Longrightarrow>
                Q now (autoSkip h (activeRefs (players h) ! startPos h)) g' \<Longrightarrow> Q now h g'"
  shows "Q now h g'"
  using r
proof (induction rule: moveToNextPlayer.raw_induct)
  case (1 mv now h g')
  note body = 1(2)
  show ?case
  proof (cases "activeRefs (players h) = []")
    case True
    with body have "g' = h\<lparr>status := finished, finishedAt := Some now\<rparr>" by auto
    with fin [OF True] show ?thesis by simp
  next
    case False
    show ?thesis
    proof (cases "filter (canMove h) (activeRefs (players h)) = []")
      case True
      with False body
      have "g' = h\<lparr>isDraw := True, status := finished, finishedAt := Some now\<rparr>"
        by (auto simp: canMove_def [abs_def])
      with draw [OF False True] show ?thesis by simp
    next
      case ne: False
      show ?thesis
      proof (cases "canMove h (activeRefs (players h) ! startPos h)")
        case True
        with False ne body
        have "g' = h\<lparr>currentPlayerId :=
                          Some (pid (players h ! (activeRefs (players h) ! startPos h))),
                        turnStartTime := Some now\<rparr>"
          by (auto simp: canMove_def [abs_def] Let_def getNextPlayer_startPos)
        with stop [OF False True] show ?thesis by simp
      next
        case no: False
        with False ne body
        have "mv now (autoSkip h (activeRefs (players h) ! startPos h)) = Some g'"
          by (simp add: canMove_def [abs_def] Let_def getNextPlayer_startPos autoSkip_def)
        moreover from 1(3) False ne no
        have "moveToNextPlayer now (autoSkip h (activeRefs (players h) ! startPos h)) = Some g'"
          by (subst (asm) moveToNextPlayer_step) simp
        ultimately have "Q now (autoSkip h (activeRefs (players h) ! startPos h)) g'"
          by (rule 1(1))
        from skip [OF False no this] show ?thesis .
      qed
    qed
  qed
qed (rule r)

text \<open>
  A seat that the scan does not pass over keeps its counter; the seat that held the turn
  is never passed over by the advancement that follows its own turn.
\<close>

lemma advance_scan_counts:
  assumes "distinct (map pid (players g))"
    and "activeRefs (players g) = act" and "act \<noteq> []"
    and "canMove g (act ! ((startPos g + d) mod length act))"
    and "\<forall>d' < d. \<not> canMove g (act ! ((startPos g + d') mod length act))"
    and "\<forall>e < d. k \<noteq> act ! ((startPos g + e) mod length act)"
  shows "\<exists>g'. moveToNextPlayer now g = Some g'
           \<and> skipsInARow (players g' ! k) = skipsInARow (players g ! k)"
  using assms
proof (induction d arbitrary: g)
  case 0
  have s: "startPos g < length act"
    using startPos_less [of g] 0 by simp
  then have "act ! startPos g \<in> set act" by simp
  with 0 s have ne: "filter (canMove g) act \<noteq> []"
    by (auto simp: filter_empty_conv)
  show ?case
    using 0 s ne by (subst moveToNextPlayer_step) simp
next
  case (Suc d)
  let ?n = "length act"
  let ?s = "startPos g"
  let ?g1 = "autoSkip g (act ! ?s)"
  have s: "?s < ?n"
    using startPos_less [of g] Suc.prems by simp
  have "0 < ?n" using Suc.prems by simp
  then have "(?s + Suc d) mod ?n < ?n" by simp
  then have "act ! ((?s + Suc d) mod ?n) \<in> set act" by simp
  with Suc.prems have ne: "filter (canMove g) act \<noteq> []"
    by (auto simp: filter_empty_conv)
  have no: "\<not> canMove g (act ! ?s)"
    using Suc.prems(5) s by (auto dest: spec [of _ 0])
  have k0: "k \<noteq> act ! ?s"
    using Suc.prems(6) s by (auto dest: spec [of _ 0])
  have s1: "startPos ?g1 = (?s + 1) mod ?n"
    using startPos_autoSkip [of g ?s] Suc.prems s by simp
  have idx: "\<And>e. (startPos ?g1 + e) mod ?n = (?s + Suc e) mod ?n"
    unfolding s1 by (simp add: mod_add_left_eq)
  have "\<exists>g'. moveToNextPlayer now ?g1 = Some g'
           \<and> skipsInARow (players g' ! k) = skipsInARow (players ?g1 ! k)"
  proof (rule Suc.IH)
    show "distinct (map pid (players ?g1))" using Suc.prems by simp
    show "activeRefs (players ?g1) = act" using Suc.prems by simp
    show "act \<noteq> []" by fact
    show "canMove ?g1 (act ! ((startPos ?g1 + d) mod ?n))"
      using Suc.prems(4) by (simp add: idx)
    show "\<forall>d' < d. \<not> canMove ?g1 (act ! ((startPos ?g1 + d') mod ?n))"
    proof (intro allI impI)
      fix d' assume "d' < d"
      then have "Suc d' < Suc d" by simp
      with Suc.prems(5) have "\<not> canMove g (act ! ((?s + Suc d') mod ?n))" by blast
      then show "\<not> canMove ?g1 (act ! ((startPos ?g1 + d') mod ?n))"
        by (simp add: idx)
    qed
    show "\<forall>e < d. k \<noteq> act ! ((startPos ?g1 + e) mod ?n)"
    proof (intro allI impI)
      fix e assume "e < d"
      then have "Suc e < Suc d" by simp
      with Suc.prems(6) have "k \<noteq> act ! ((?s + Suc e) mod ?n)" by blast
      then show "k \<noteq> act ! ((startPos ?g1 + e) mod ?n)" by (simp add: idx)
    qed
  qed
  then obtain g' where g': "moveToNextPlayer now ?g1 = Some g'"
    "skipsInARow (players g' ! k) = skipsInARow (players ?g1 ! k)"
    by blast
  have "moveToNextPlayer now g = Some g'"
    using Suc.prems ne no g'(1) by (subst moveToNextPlayer_step) simp
  moreover have "skipsInARow (players ?g1 ! k) = skipsInARow (players g ! k)"
    using k0 by (simp add: autoSkip_def nth_update_skips)
  ultimately show ?case using g'(2) by simp
qed

lemma wrap_not_back:
  assumes "k0 < n" and "e + 1 < n"
  shows "((k0 + 1) mod n + e) mod n \<noteq> (k0::nat)"
proof
  assume "((k0 + 1) mod n + e) mod n = k0"
  moreover have "((k0 + 1) mod n + e) mod n = (k0 + 1 + e) mod n"
    by (rule mod_add_left_eq)
  moreover have "k0 + 1 + e = k0 + (e + 1)" by simp
  ultimately have "(k0 + (e + 1)) mod n = k0 mod n"
    using assms(1) by simp
  then have "n dvd (k0 + (e + 1)) - k0"
    by (subst (asm) mod_eq_dvd_iff_nat) simp_all
  then have "n dvd e + 1" by simp
  with assms(2) show False
    by (auto dest: dvd_imp_le)
qed

lemma current_seat_not_autoskipped:
  assumes d: "distinct (map pid (players h))"
    and i: "i < length (players h)"
    and c: "currentPlayerId h = Some (pid (players h ! i))"
  shows "\<exists>g'. moveToNextPlayer now h = Some g' \<and> turnFrame h g'
           \<and> skipsInARow (players g' ! i) = skipsInARow (players h ! i)"
proof (cases "activeRefs (players h) = []")
  case True
  then show ?thesis
    by (subst moveToNextPlayer_step) (simp add: turnFrame_def)
next
  case False
  let ?act = "activeRefs (players h)"
  let ?n = "length ?act"
  let ?s = "startPos h"
  show ?thesis
  proof (cases "filter (canMove h) ?act = []")
    case True
    with False show ?thesis
      by (subst moveToNextPlayer_step) (simp add: turnFrame_def)
  next
    case ne: False
    then obtain m where m: "m < ?n" "canMove h (?act ! m)"
      by (auto simp: filter_empty_conv in_set_conv_nth)
    have s: "?s < ?n" using startPos_less [OF False] .
    let ?Q = "\<lambda>e. canMove h (?act ! ((?s + e) mod ?n))"
    let ?d = "LEAST e. ?Q e"
    have "(?s + (m + ?n - ?s) mod ?n) mod ?n = m"
      using s m by (simp add: mod_add_right_eq)
    with m have Qe: "?Q ((m + ?n - ?s) mod ?n)" by simp
    then have least: "?Q ?d" by (rule LeastI)
    have min: "\<forall>d' < ?d. \<not> ?Q d'"
      using not_less_Least by blast
    have "?d \<le> (m + ?n - ?s) mod ?n" using Qe by (rule Least_le)
    also have "\<dots> < ?n" using m by (intro mod_less_divisor) linarith
    finally have dn: "?d < ?n" .
    have away: "\<forall>e < ?d. i \<noteq> ?act ! ((?s + e) mod ?n)"
    proof (intro allI impI)
      fix e assume e: "e < ?d"
      have pos: "(?s + e) mod ?n < ?n" using m by (intro mod_less_divisor) linarith
      show "i \<noteq> ?act ! ((?s + e) mod ?n)"
      proof (cases "i \<in> set ?act")
        case False
        with pos show ?thesis by (metis nth_mem)
      next
        case True
        then obtain k0 where k0: "k0 < ?n" "?act ! k0 = i"
          by (auto simp: in_set_conv_nth)
        have "findIndex (\<lambda>j. pid (players h ! j) = pid (players h ! (?act ! k0))) ?act = Some k0"
          using findIndex_nth [OF distinct_active_pids [OF d] k0(1)] by simp
        with k0 c have sp: "?s = (k0 + 1) mod ?n"
          by (simp add: startPos_def)
        from e dn have "e + 1 < ?n" by simp
        from wrap_not_back [OF k0(1) this] sp have "(?s + e) mod ?n \<noteq> k0" by simp
        with pos k0 activeRefs_distinct [of "players h"] show ?thesis
          by (metis nth_eq_iff_index_eq)
      qed
    qed
    from advance_scan [OF d refl False least min, of now]
    obtain g' where g': "moveToNextPlayer now h = Some g'" "turnFrame h g'" by blast
    from advance_scan_counts [OF d refl False least min away, of now] g'(1)
    have "skipsInARow (players g' ! i) = skipsInARow (players h ! i)" by simp
    with g' show ?thesis by blast
  qed
qed

section \<open>Move submission\<close>

lemma findIndex_Some_iff:
  "findIndex f xs = Some i \<longleftrightarrow> i < length xs \<and> f (xs ! i) \<and> (\<forall>j < i. \<not> f (xs ! j))"
proof (induction xs arbitrary: i)
  case Nil
  then show ?case by simp
next
  case (Cons x xs)
  show ?case
  proof (cases "f x")
    case True
    then show ?thesis by (cases i) auto
  next
    case False
    show ?thesis
    proof (cases i)
      case 0
      with False show ?thesis by simp
    next
      case (Suc k)
      have "(\<forall>j < Suc k. \<not> f ((x # xs) ! j)) \<longleftrightarrow> (\<forall>j < k. \<not> f (xs ! j))"
        using False by (auto simp: less_Suc_eq_0_disj)
      with Suc False Cons.IH [of k] show ?thesis by auto
    qed
  qed
qed

lemma findIndex_None_iff: "findIndex f xs = None \<longleftrightarrow> (\<forall>x \<in> set xs. \<not> f x)"
  by (induction xs) auto

lemma isValidMove_iff:
  assumes "distinct (map pid (players g))"
  shows "isValidMove g playerId cellIndex sz \<longleftrightarrow>
           status g = playing \<and> currentPlayerId g = Some playerId
           \<and> (\<exists>p \<in> set (players g). pid p = playerId \<and> \<not> isEliminated p
                  \<and> pieces (inventory p) sz > 0)
           \<and> isLegalMove (board g) cellIndex sz None"
proof (cases "findIndex (\<lambda>p. pid p = playerId) (players g)")
  case None
  then have "\<forall>p \<in> set (players g). pid p \<noteq> playerId"
    by (simp add: findIndex_None_iff)
  moreover from None have "\<not> isValidMove g playerId cellIndex sz"
    by (simp add: isValidMove_def)
  ultimately show ?thesis by blast
next
  case (Some i)
  then have i: "i < length (players g)" "pid (players g ! i) = playerId"
    by (simp_all add: findIndex_Some_iff)
  have uniq: "p = players g ! i" if "p \<in> set (players g)" "pid p = playerId" for p
  proof -
    from that obtain j where "j < length (players g)" "players g ! j = p"
      by (auto simp: in_set_conv_nth)
    with that i assms have "j = i"
      by (metis length_map nth_eq_iff_index_eq nth_map)
    with \<open>players g ! j = p\<close> show ?thesis by simp
  qed
  have "players g ! i \<in> set (players g)" using i by simp
  with Some i uniq show ?thesis
    by (auto simp: isValidMove_def hasPiece_def)
qed

lemma map_inventory_erase: "map inventory (map eraseSkips ps) = map inventory ps"
  by (simp add: eraseSkips_def)

lemma turnFrame_inventory: "turnFrame g g' \<Longrightarrow> map inventory (players g') = map inventory (players g)"
  by (metis map_inventory_erase turnFrame_def)

lemma slot_setSlot: "slot (setSlot c s v) s' = (if s' = s then v else slot c s')"
  by (cases s; cases s') simp_all

lemma pieces_setPieces: "pieces (setPieces iv s n) s' = (if s' = s then n else pieces iv s')"
  by (cases s; cases s') simp_all

lemma isLegalMove_larger_empty:
  "isLegalMove b cellIndex sz col \<longleftrightarrow>
     0 \<le> cellIndex \<and> cellIndex \<le> 8 \<and>
     (\<forall>s'. sizeRank sz \<le> sizeRank s' \<longrightarrow> slot (b ! nat cellIndex) s' = None)"
  by (cases sz) (auto simp: isLegalMove_def Let_def size_all)

text \<open>
  C6, as stated, with legality as the specification defines it (\<open>slotRuleLegal\<close>): a move
  that meets all five conditions succeeds. It fails: in \<open>coveredGame\<close> the match is
  playing, it is the turn of b, seat b exists, is not eliminated and owns three P, cell 0
  is in range and its P slot is empty; yet the P of b on cell 0 is refused, because the
  cell holds a larger piece, and the state stays as it was.
\<close>

theorem applyMove_slot_rule_counterexample:
  "status coveredGame = playing \<and> currentPlayerId coveredGame = Some ''b''
   \<and> seatStock coveredGame P = [(''a'', False, 3), (''b'', False, 3)]
   \<and> slotRuleLegal (board coveredGame) 0 P
   \<and> slot (board coveredGame ! 0) M = Some red
   \<and> applyMove 1 coveredGame ''b'' 0 P = Some (False, coveredGame)"
  by code_simp

text \<open>
  C6, amended: \<open>applyMove\<close> returns, and it accepts the move exactly when the match is
  playing, the player holds the turn, the seat exists, is not eliminated and owns a piece
  of the size, the cell index is within 0..8, and the target slot and every larger slot of
  the cell are empty. A rejected move leaves the whole state as it was. After an accepted
  move the board has the same cells, the target slot, empty before, holds the mover's
  colour and every other slot of the board holds what it held; the seats are as many as
  before, the mover owns one piece less of that size, and every other count of every seat
  is what it was. Seat ids are distinct (a room never admits the same id twice) and the
  board has its nine cells.
\<close>

theorem applyMove_accepts_iff_valid:
  assumes d: "distinct (map pid (players g))" and nine: "length (board g) = 9"
  shows "\<exists>ok g'. applyMove now g playerId cellIndex sz = Some (ok, g')
      \<and> (ok \<longleftrightarrow> status g = playing \<and> currentPlayerId g = Some playerId
                 \<and> (\<exists>p \<in> set (players g). pid p = playerId \<and> \<not> isEliminated p
                        \<and> pieces (inventory p) sz > 0)
                 \<and> 0 \<le> cellIndex \<and> cellIndex \<le> 8
                 \<and> (\<forall>s'. sizeRank sz \<le> sizeRank s'
                          \<longrightarrow> slot (board g ! nat cellIndex) s' = None))
      \<and> (\<not> ok \<longrightarrow> g' = g)
      \<and> (ok \<longrightarrow> (\<exists>i < length (players g). pid (players g ! i) = playerId
             \<and> length (board g') = length (board g)
             \<and> slot (board g ! nat cellIndex) sz = None
             \<and> (\<forall>j < length (board g). \<forall>s.
                   slot (board g' ! j) s =
                     (if j = nat cellIndex \<and> s = sz then Some (color (players g ! i))
                      else slot (board g ! j) s))
             \<and> length (players g') = length (players g)
             \<and> (\<forall>k < length (players g). \<forall>s.
                   pieces (inventory (players g' ! k)) s =
                     (if k = i \<and> s = sz then pieces (inventory (players g ! k)) s - 1
                      else pieces (inventory (players g ! k)) s))))"
proof (cases "isValidMove g playerId cellIndex sz")
  case False
  then have "applyMove now g playerId cellIndex sz = Some (False, g)"
    by (simp add: applyMove_def)
  moreover from False isValidMove_iff [OF d, of playerId cellIndex sz]
  have "\<not> (status g = playing \<and> currentPlayerId g = Some playerId
                 \<and> (\<exists>p \<in> set (players g). pid p = playerId \<and> \<not> isEliminated p
                        \<and> pieces (inventory p) sz > 0)
                 \<and> 0 \<le> cellIndex \<and> cellIndex \<le> 8
                 \<and> (\<forall>s'. sizeRank sz \<le> sizeRank s'
                          \<longrightarrow> slot (board g ! nat cellIndex) s' = None))"
    unfolding isLegalMove_larger_empty by blast
  ultimately show ?thesis by blast
next
  case True
  then obtain i where fi: "findIndex (\<lambda>p. pid p = playerId) (players g) = Some i"
    by (auto simp: isValidMove_def split: option.splits if_splits)
  then have i: "i < length (players g)" "pid (players g ! i) = playerId"
    by (simp_all add: findIndex_Some_iff)
  from True fi have hp: "hasPiece (players g ! i) sz"
    and legal: "isLegalMove (board g) cellIndex sz None"
    by (auto simp: isValidMove_def split: if_splits)
  from legal have rng: "0 \<le> cellIndex" "cellIndex \<le> 8"
    and empty: "slot (board g ! nat cellIndex) sz = None"
    by (auto simp: isLegalMove_def Let_def split: if_splits)
  from rng nine have inb: "nat cellIndex < length (board g)" by simp
  let ?player = "players g ! i"
  let ?b = "(board g)[nat cellIndex := setSlot (board g ! nat cellIndex) sz (Some (color ?player))]"
  let ?used = "?player\<lparr>inventory := setPieces (inventory ?player) sz (pieces (inventory ?player) sz - 1)\<rparr>"
  let ?ps = "(players g)[i := resetSkips ?used]"
  let ?g1 = "g\<lparr>board := ?b, players := ?ps\<rparr>"
  have up: "usePiece ?player sz = Inr ?used"
    using hp by (simp add: usePiece_def)
  have d1: "distinct (map pid (players ?g1))"
  proof -
    have "map pid ?ps = map pid (players g)"
      using i by (simp add: map_update resetSkips_def list_update_same_conv)
    with d show ?thesis by simp
  qed
  from moveToNextPlayer_total [OF d1, of now]
  obtain g2 where g2: "moveToNextPlayer now ?g1 = Some g2" "turnFrame ?g1 g2" by blast
  have "\<exists>g'. applyMove now g playerId cellIndex sz = Some (True, g')
          \<and> board g' = ?b \<and> map inventory (players g') = map inventory ?ps"
  proof (cases "checkWinConditions ?b (color ?player)")
    case True
    with \<open>isValidMove g playerId cellIndex sz\<close> fi up show ?thesis
      by (simp add: applyMove_def Let_def)
  next
    case nowin: False
    show ?thesis
    proof (cases "isDrawFn ?b ?ps")
      case True
      with nowin \<open>isValidMove g playerId cellIndex sz\<close> fi up show ?thesis
        by (simp add: applyMove_def Let_def)
    next
      case False
      have "applyMove now g playerId cellIndex sz = Some (True, g2)"
        using nowin False \<open>isValidMove g playerId cellIndex sz\<close> fi up g2(1)
        by (simp add: applyMove_def Let_def)
      moreover have "board g2 = ?b" using g2(2) by (simp add: turnFrame_def)
      moreover have "map inventory (players g2) = map inventory ?ps"
        using turnFrame_inventory [OF g2(2)] by simp
      ultimately show ?thesis by blast
    qed
  qed
  then obtain g' where g': "applyMove now g playerId cellIndex sz = Some (True, g')"
    and bd: "board g' = ?b" and iv: "map inventory (players g') = map inventory ?ps" by blast
  from True isValidMove_iff [OF d, of playerId cellIndex sz]
  have cond: "status g = playing \<and> currentPlayerId g = Some playerId
                 \<and> (\<exists>p \<in> set (players g). pid p = playerId \<and> \<not> isEliminated p
                        \<and> pieces (inventory p) sz > 0)
                 \<and> 0 \<le> cellIndex \<and> cellIndex \<le> 8
                 \<and> (\<forall>s'. sizeRank sz \<le> sizeRank s'
                          \<longrightarrow> slot (board g ! nat cellIndex) s' = None)"
    unfolding isLegalMove_larger_empty by blast
  have lb: "length (board g') = length (board g)" using bd by simp
  have slots: "\<forall>j < length (board g). \<forall>s.
                   slot (board g' ! j) s =
                     (if j = nat cellIndex \<and> s = sz then Some (color (players g ! i))
                      else slot (board g ! j) s)"
  proof (intro allI impI)
    fix j s assume j: "j < length (board g)"
    show "slot (board g' ! j) s =
            (if j = nat cellIndex \<and> s = sz then Some (color (players g ! i))
             else slot (board g ! j) s)"
      unfolding bd using j by (cases "j = nat cellIndex") (simp_all add: slot_setSlot)
  qed
  have lp: "length (players g') = length (players g)"
    using arg_cong [OF iv, of length] by simp
  have stock: "\<forall>k < length (players g). \<forall>s.
                   pieces (inventory (players g' ! k)) s =
                     (if k = i \<and> s = sz then pieces (inventory (players g ! k)) s - 1
                      else pieces (inventory (players g ! k)) s)"
  proof (intro allI impI)
    fix k s assume k: "k < length (players g)"
    have "inventory (players g' ! k) = map inventory (players g') ! k"
      using k lp by simp
    also have "\<dots> = inventory (?ps ! k)" unfolding iv using k by simp
    finally have "inventory (players g' ! k) = inventory (?ps ! k)" .
    then show "pieces (inventory (players g' ! k)) s =
                     (if k = i \<and> s = sz then pieces (inventory (players g ! k)) s - 1
                      else pieces (inventory (players g ! k)) s)"
      using k by (cases "k = i") (simp_all add: resetSkips_def pieces_setPieces)
  qed
  have eff: "\<exists>i < length (players g). pid (players g ! i) = playerId
             \<and> length (board g') = length (board g)
             \<and> slot (board g ! nat cellIndex) sz = None
             \<and> (\<forall>j < length (board g). \<forall>s.
                   slot (board g' ! j) s =
                     (if j = nat cellIndex \<and> s = sz then Some (color (players g ! i))
                      else slot (board g ! j) s))
             \<and> length (players g') = length (players g)
             \<and> (\<forall>k < length (players g). \<forall>s.
                   pieces (inventory (players g' ! k)) s =
                     (if k = i \<and> s = sz then pieces (inventory (players g ! k)) s - 1
                      else pieces (inventory (players g ! k)) s))"
    using i lb empty slots lp stock by blast
  show ?thesis
    by (intro exI [of _ True] exI [of _ g'] conjI) (use g' cond eff in simp_all)
qed

theorem applyMove_accepts_iff_valid_witness:
  "distinct (map pid (players abGame)) \<and> length (board abGame) = 9
   \<and> (\<exists>g'. applyMove 1 abGame ''a'' 4 M = Some (True, g')
          \<and> slot (board g' ! 4) M = Some red
          \<and> pieces (inventory (players g' ! 0)) M = 2)
   \<and> applyMove 1 abGame ''b'' 4 M = Some (False, abGame)"
proof -
  have d: "distinct (map pid (players abGame))" by code_simp
  have nine: "length (board abGame) = 9" by code_simp
  have cond: "status abGame = playing \<and> currentPlayerId abGame = Some ''a''
      \<and> seatA \<in> set (players abGame) \<and> pid seatA = ''a'' \<and> \<not> isEliminated seatA
      \<and> pieces (inventory seatA) M > 0"
    by code_simp
  have free: "\<forall>s'. sizeRank M \<le> sizeRank s' \<longrightarrow> slot (board abGame ! nat 4) s' = None"
    unfolding size_all by code_simp
  have facts: "length (players abGame) = 2 \<and> pid (players abGame ! 0) = ''a''
      \<and> pid (players abGame ! 1) = ''b'' \<and> color (players abGame ! 0) = red
      \<and> pieces (inventory (players abGame ! 0)) M = 3"
    by code_simp
  have nob: "currentPlayerId abGame \<noteq> Some ''b''" by code_simp
  have seat: "\<exists>p \<in> set (players abGame). pid p = ''a'' \<and> \<not> isEliminated p
                \<and> pieces (inventory p) M > 0"
    using cond by blast
  from applyMove_accepts_iff_valid [OF d nine, of 1 "''a''" 4 M]
  obtain ok g' where r: "applyMove 1 abGame ''a'' 4 M = Some (ok, g')"
    and okiff: "ok \<longleftrightarrow> status abGame = playing \<and> currentPlayerId abGame = Some ''a''
                 \<and> (\<exists>p \<in> set (players abGame). pid p = ''a'' \<and> \<not> isEliminated p
                        \<and> pieces (inventory p) M > 0)
                 \<and> (0::int) \<le> 4 \<and> (4::int) \<le> 8
                 \<and> (\<forall>s'. sizeRank M \<le> sizeRank s'
                          \<longrightarrow> slot (board abGame ! nat 4) s' = None)"
    and eff: "ok \<longrightarrow> (\<exists>i < length (players abGame). pid (players abGame ! i) = ''a''
             \<and> length (board g') = length (board abGame)
             \<and> slot (board abGame ! nat 4) M = None
             \<and> (\<forall>j < length (board abGame). \<forall>s.
                   slot (board g' ! j) s =
                     (if j = nat 4 \<and> s = M then Some (color (players abGame ! i))
                      else slot (board abGame ! j) s))
             \<and> length (players g') = length (players abGame)
             \<and> (\<forall>k < length (players abGame). \<forall>s.
                   pieces (inventory (players g' ! k)) s =
                     (if k = i \<and> s = M then pieces (inventory (players abGame ! k)) s - 1
                      else pieces (inventory (players abGame ! k)) s)))"
    by blast
  from okiff cond seat free have ok by simp
  with eff obtain i where i: "i < length (players abGame)" "pid (players abGame ! i) = ''a''"
    and sl: "\<forall>j < length (board abGame). \<forall>s.
                   slot (board g' ! j) s =
                     (if j = nat 4 \<and> s = M then Some (color (players abGame ! i))
                      else slot (board abGame ! j) s)"
    and st: "\<forall>k < length (players abGame). \<forall>s.
                   pieces (inventory (players g' ! k)) s =
                     (if k = i \<and> s = M then pieces (inventory (players abGame ! k)) s - 1
                      else pieces (inventory (players abGame ! k)) s)"
    by blast
  from i facts have i0: "i = 0"
    by (cases i) (auto simp: less_Suc_eq)
  from sl nine have "slot (board g' ! 4) M = Some (color (players abGame ! i))"
    by (auto dest!: spec [of _ 4] spec [of _ M])
  with i0 facts have s4: "slot (board g' ! 4) M = Some red" by simp
  from st i have "pieces (inventory (players g' ! i)) M
                    = pieces (inventory (players abGame ! i)) M - 1"
    by (auto dest!: spec [of _ i] spec [of _ M])
  with i0 facts have p2: "pieces (inventory (players g' ! 0)) M = 2" by simp
  from r \<open>ok\<close> s4 p2 have a: "\<exists>g'. applyMove 1 abGame ''a'' 4 M = Some (True, g')
          \<and> slot (board g' ! 4) M = Some red
          \<and> pieces (inventory (players g' ! 0)) M = 2" by auto
  from applyMove_accepts_iff_valid [OF d nine, of 1 "''b''" 4 M]
  obtain ok2 g2 where r2: "applyMove 1 abGame ''b'' 4 M = Some (ok2, g2)"
    and ok2iff: "ok2 \<longrightarrow> currentPlayerId abGame = Some ''b''"
    and same: "\<not> ok2 \<longrightarrow> g2 = abGame"
    by blast
  from ok2iff nob have "\<not> ok2" by blast
  with r2 same have b: "applyMove 1 abGame ''b'' 4 M = Some (False, abGame)" by simp
  from d nine a b show ?thesis by blast
qed

section \<open>The seat that receives the turn\<close>

lemma find_filter_conj: "List.find (\<lambda>x. A x \<and> Q x) xs = List.find Q (filter A xs)"
  by (induction xs) auto

lemma pid_inj:
  "distinct (map pid ps) \<Longrightarrow> i < length ps \<Longrightarrow> j < length ps \<Longrightarrow> pid (ps ! i) = pid (ps ! j) \<Longrightarrow> i = j"
  by (metis length_map nth_eq_iff_index_eq nth_map)

lemma scan_is_rotation:
  assumes d: "distinct (map pid (players g))"
  shows "filter (\<lambda>i. isActive (players g ! i)) (scanFrom (length (players g)) (scanStart g))
         = rotate (startPos g) (activeRefs (players g))"
proof -
  let ?ps = "players g"
  let ?N = "length ?ps"
  let ?A = "\<lambda>i. isActive (?ps ! i)"
  let ?act = "activeRefs ?ps"
  let ?m = "\<lambda>i. Some (pid (?ps ! i)) = currentPlayerId g"
  show ?thesis
  proof (cases "\<exists>c. prevSeat g = Some c \<and> ?A c")
    case True
    then obtain c where c: "prevSeat g = Some c" "?A c" by blast
    then obtain ident where cur: "currentPlayerId g = Some ident"
      and fi: "findIndex (\<lambda>p. pid p = ident) ?ps = Some c"
      by (auto simp: prevSeat_def split: option.splits)
    from fi have cN: "c < ?N" and pc: "pid (?ps ! c) = ident"
      by (simp_all add: findIndex_Some_iff)
    let ?F0 = "filter ?A [0..<c]"
    let ?F2 = "filter ?A [Suc c..<?N]"
    have split: "[0..<?N] = [0..<c] @ [c] @ [Suc c..<?N]"
      using cN by (metis append_Cons append_Nil le_add1 le_add_same_cancel1 less_imp_add_positive
          upt_add_eq_append upt_conv_Cons)
    have act: "?act = ?F0 @ [c] @ ?F2"
      unfolding activeRefs_def by (subst split) (simp add: c)
    have k: "length ?F0 < length ?act" and nth: "?act ! length ?F0 = c"
      by (simp_all add: act)
    have "findIndex (\<lambda>i. pid (?ps ! i) = pid (?ps ! (?act ! length ?F0))) ?act = Some (length ?F0)"
      by (rule findIndex_nth [OF distinct_active_pids [OF d] k])
    then have "findIndex ?m ?act = Some (length ?F0)"
      by (simp add: nth pc cur)
    then have sp: "startPos g = (length ?F0 + 1) mod length ?act"
      by (simp add: startPos_def)
    have e1: "?act = (?F0 @ [c]) @ ?F2" by (simp add: act)
    have e2: "length ?F0 + 1 = length (?F0 @ [c])" by simp
    have "rotate (startPos g) ?act = rotate (length ?F0 + 1) ?act"
      unfolding sp by (rule rotate_conv_mod [symmetric])
    also have "\<dots> = rotate (length (?F0 @ [c])) ((?F0 @ [c]) @ ?F2)"
      by (subst e1) (simp only: e2)
    also have "\<dots> = ?F2 @ (?F0 @ [c])"
      by (rule rotate_append)
    finally have r: "rotate (startPos g) ?act = ?F2 @ ?F0 @ [c]" by simp
    have "scanStart g = Suc c" by (simp add: scanStart_def c)
    then have "filter ?A (scanFrom ?N (scanStart g)) = ?F2 @ ?F0 @ [c]"
      by (simp add: scanFrom_def c)
    with r show ?thesis by simp
  next
    case False
    have none: "findIndex ?m ?act = None"
    proof (rule ccontr)
      assume "findIndex ?m ?act \<noteq> None"
      then obtain i where i: "i \<in> set ?act" "?m i"
        by (auto simp: findIndex_None_iff)
      then have iN: "i < ?N" and ai: "?A i" by (auto simp: activeRefs_def)
      define ident where "ident = pid (?ps ! i)"
      from i(2) have cur: "currentPlayerId g = Some ident" and pi: "pid (?ps ! i) = ident"
        by (simp_all add: ident_def)
      have "\<exists>x \<in> set ?ps. pid x = ident" using iN pi by auto
      then obtain c where fi: "findIndex (\<lambda>p. pid p = ident) ?ps = Some c"
        by (cases "findIndex (\<lambda>p. pid p = ident) ?ps") (auto simp: findIndex_None_iff)
      then have "c < ?N" "pid (?ps ! c) = ident" by (simp_all add: findIndex_Some_iff)
      with iN pi d have "c = i" by (metis pid_inj)
      with fi cur ai False show False by (simp add: prevSeat_def)
    qed
    then have sp: "startPos g = 0" by (simp add: startPos_def)
    have "scanStart g = 0"
      using False by (auto simp: scanStart_def split: option.splits)
    then show ?thesis by (simp add: sp scanFrom_def activeRefs_def)
  qed
qed

text \<open>
  C2, as stated: after a move or a forced skip the turn goes to the first active seat met
  by scanning the seats from the position after the previous current seat, also when
  that seat has just been eliminated. It fails: with seats a, b, c, seat b is eliminated
  by its second timeout; the scan from the position after b meets c first, but the match
  continues with a as its current seat.
\<close>

theorem turn_after_elimination_counterexample:
  "map_option turnReport trioEnd = Some (True, playing, Some ''a'', Some ''c'')"
  by code_simp

text \<open>
  C2, amended: turn advancement returns, and when it leaves the match playing, the new
  current seat is the first seat that is active and has a legal move, met by scanning
  the seats in seat order and wrapping around; the scan starts at the position after the
  previous current seat when that seat is still active, and at the first seat of the
  match when the previous current seat is no longer active (or names no seat). Seat ids
  are distinct.
\<close>

theorem moveToNextPlayer_next_mover:
  assumes d: "distinct (map pid (players g))"
    and st: "status g = playing"
  shows "\<exists>g'. moveToNextPlayer now g = Some g'
           \<and> (status g' = playing \<longrightarrow>
                 currentPlayerId g' = map_option (seatId g) (nextMover g)
               \<and> nextMover g \<noteq> None)"
proof -
  from moveToNextPlayer_total [OF d, of now]
  obtain g' where run: "moveToNextPlayer now g = Some g'" by blast
  have "currentPlayerId g' = map_option (seatId g) (nextMover g) \<and> nextMover g \<noteq> None"
    if st': "status g' = playing"
  proof -
    let ?act = "activeRefs (players g)"
    let ?n = "length ?act"
    let ?s = "startPos g"
    let ?xs = "rotate ?s ?act"
    have a: "?act \<noteq> []"
    proof
      assume "?act = []"
      then have "moveToNextPlayer now g = Some (g\<lparr>status := finished, finishedAt := Some now\<rparr>)"
        by (subst moveToNextPlayer_step) simp
      with run st st' show False by auto
    qed
    have ne: "filter (canMove g) ?act \<noteq> []"
    proof
      assume "filter (canMove g) ?act = []"
      with a have "moveToNextPlayer now g =
          Some (g\<lparr>isDraw := True, status := finished, finishedAt := Some now\<rparr>)"
        by (subst moveToNextPlayer_step) simp
      with run st st' show False by auto
    qed
    then have "\<exists>x \<in> set ?xs. canMove g x"
      by (auto simp: filter_empty_conv)
    then obtain x where fx: "List.find (canMove g) ?xs = Some x"
      by (cases "List.find (canMove g) ?xs") (auto simp: find_None_iff)
    then obtain e where e: "e < length ?xs" "canMove g (?xs ! e)" "x = ?xs ! e"
      "\<forall>j < e. \<not> canMove g (?xs ! j)"
      by (auto simp: find_Some_iff)
    have en: "e < ?n" using e(1) by simp
    have nth: "\<And>j. j < ?n \<Longrightarrow> ?xs ! j = ?act ! ((?s + j) mod ?n)"
      by (simp add: nth_rotate)
    have c1: "canMove g (?act ! ((?s + e) mod ?n))"
      using e(2) nth [OF en] by simp
    have c2: "\<forall>d' < e. \<not> canMove g (?act ! ((?s + d') mod ?n))"
    proof (intro allI impI)
      fix d' assume lt: "d' < e"
      with en have "d' < ?n" by simp
      from nth [OF this] e(4) lt show "\<not> canMove g (?act ! ((?s + d') mod ?n))" by auto
    qed
    from advance_scan [OF d refl a c1 c2, of now] run
    have cur: "currentPlayerId g' = Some (pid (players g ! (?act ! ((?s + e) mod ?n))))"
      by auto
    have "nextMover g = List.find (canMove g) ?xs"
      unfolding nextMover_def find_filter_conj scan_is_rotation [OF d] ..
    with fx e(3) nth [OF en] have "nextMover g = Some (?act ! ((?s + e) mod ?n))" by simp
    with cur show ?thesis by (simp add: seatId_def)
  qed
  with run show ?thesis by blast
qed

theorem moveToNextPlayer_next_mover_witness:
  "distinct (map pid (players stuckGame)) \<and> status stuckGame = playing
   \<and> currentPlayerId stuckGame = Some ''a''
   \<and> (\<exists>g'. moveToNextPlayer 1 stuckGame = Some g' \<and> status g' = playing
          \<and> currentPlayerId g' = map_option (seatId stuckGame) (nextMover stuckGame))
   \<and> map_option (seatId stuckGame) (nextMover stuckGame) = Some ''a''"
proof -
  have d: "distinct (map pid (players stuckGame))" by code_simp
  have st: "status stuckGame = playing" by code_simp
  have cur: "currentPlayerId stuckGame = Some ''a''" by code_simp
  have e: "map_option status (moveToNextPlayer 1 stuckGame) = Some playing" by code_simp
  from moveToNextPlayer_next_mover [OF d st, of 1]
  obtain g' where g': "moveToNextPlayer 1 stuckGame = Some g'"
    and imp: "status g' = playing \<longrightarrow>
                currentPlayerId g' = map_option (seatId stuckGame) (nextMover stuckGame)
              \<and> nextMover stuckGame \<noteq> None"
    by blast
  from e g' have p: "status g' = playing" by simp
  with imp have n: "currentPlayerId g' = map_option (seatId stuckGame) (nextMover stuckGame)"
    by simp
  have m: "map_option (seatId stuckGame) (nextMover stuckGame) = Some ''a''" by code_simp
  from d st cur g' p n m show ?thesis by blast
qed

section \<open>Skips, elimination and the end of a match\<close>


lemma skipMark_rule: "skipsInARow (skipMark p) \<ge> 2 \<longrightarrow> isEliminated (skipMark p)"
  by (simp add: skipMark_def incrementSkips_def eliminate_def Let_def)

lemma checkGameEnd_players [simp]: "players (checkGameEnd now g) = players g"
  by (simp add: checkGameEnd_def Let_def)

lemma initPlayers_counts:
  "initPlayers uuid k ps = Inr qs \<Longrightarrow> \<forall>q \<in> set qs. skipsInARow q = 0"
proof (induction ps arbitrary: k qs)
  case Nil
  then show ?case by simp
next
  case (Cons p ps)
  from Cons.prems obtain q qs' where q: "newPlayer (uuid k)
                  \<lparr>opt_id = Some (pid p), opt_nickname = nickname p,
                   opt_color = palette ! k, opt_connected = Some (connected p),
                   opt_isHost = Some (isHost p)\<rparr> = Inr q"
    and r: "initPlayers uuid (k + 1) ps = Inr qs'" and e: "qs = q # qs'"
    by (auto split: if_splits sum.splits)
  from q have "skipsInARow q = 0"
    by (auto simp: newPlayer_def split: if_splits)
  with Cons.IH [OF r] e show ?case by simp
qed

lemma initialize_rule:
  assumes "initialize now randomIndex uuid ps g0 = Inr g"
  shows "skipRuleUnlessStuck g"
proof -
  from assms obtain qs where "initPlayers uuid 0 ps = Inr qs" "players g = qs"
    by (auto simp: initialize_def split: if_splits sum.splits)
  with initPlayers_counts [of uuid 0 ps qs] show ?thesis
    by (simp add: skipRuleUnlessStuck_def)
qed

lemma autoSkip_rule:
  assumes "skipRuleUnlessStuck h" and "\<not> canMove h j"
  shows "skipRuleUnlessStuck (autoSkip h j)"
proof -
  let ?q = "(players h ! j)\<lparr>skipsInARow := skipsInARow (players h ! j) + 1\<rparr>"
  have "set (players (autoSkip h j)) \<subseteq> insert ?q (set (players h))"
    unfolding autoSkip_def by (simp add: set_update_subset_insert)
  moreover have "\<not> hasLegalMoves (board h) ?q"
    using assms(2) by (simp add: canMove_def)
  moreover have "board (autoSkip h j) = board h" by (simp add: autoSkip_def)
  ultimately show ?thesis
    using assms(1) unfolding skipRuleUnlessStuck_def by auto
qed

lemma advance_rule:
  assumes "moveToNextPlayer now h = Some g'"
  shows "skipRuleUnlessStuck h \<longrightarrow> skipRuleUnlessStuck g'"
  using assms
proof (rule advance_cases)
  fix now h g'
  assume "\<not> canMove h (activeRefs (players h) ! startPos h)"
    and "skipRuleUnlessStuck (autoSkip h (activeRefs (players h) ! startPos h))
           \<longrightarrow> skipRuleUnlessStuck g'"
  then show "skipRuleUnlessStuck h \<longrightarrow> skipRuleUnlessStuck g'"
    by (simp add: autoSkip_rule)
qed (simp_all add: skipRuleUnlessStuck_def)

lemma slot_setSlot_None: "slot (setSlot c s (Some v)) s' = None \<Longrightarrow> slot c s' = None"
  by (cases s; cases s') simp_all

lemma placed_cell:
  "slot (b[c := setSlot (b ! c) sz (Some v)] ! k) s' = None \<Longrightarrow> slot (b ! k) s' = None"
proof (cases "c < length b")
  case True
  assume "slot (b[c := setSlot (b ! c) sz (Some v)] ! k) s' = None"
  with True show ?thesis by (cases "k = c") (auto dest: slot_setSlot_None)
next
  case False
  assume "slot (b[c := setSlot (b ! c) sz (Some v)] ! k) s' = None"
  with False show ?thesis by (simp add: list_update_beyond)
qed

lemma placed_legal:
  "isLegalMove (b[c := setSlot (b ! c) sz (Some v)]) cellIndex s col \<Longrightarrow> isLegalMove b cellIndex s col"
  unfolding isLegalMove_larger_empty by (blast dest: placed_cell)

lemma placed_moves:
  "hasLegalMoves (b[c := setSlot (b ! c) sz (Some v)]) p \<Longrightarrow> hasLegalMoves b p"
  unfolding hasLegalMoves_def list_ex_iff by (blast dest: placed_legal)

lemma applyMove_rule:
  assumes r: "skipRuleUnlessStuck g" and a: "applyMove now g playerId cellIndex sz = Some (ok, g')"
  shows "skipRuleUnlessStuck g'"
proof (cases "isValidMove g playerId cellIndex sz")
  case False
  with a r show ?thesis by (simp add: applyMove_def)
next
  case True
  from True a obtain i where fi: "findIndex (\<lambda>p. pid p = playerId) (players g) = Some i"
    by (auto simp: applyMove_def split: option.splits)
  let ?player = "players g ! i"
  let ?b = "(board g)[nat cellIndex := setSlot (board g ! nat cellIndex) sz (Some (color ?player))]"
  from True a fi obtain used where up: "usePiece ?player sz = Inr used"
    by (auto simp: applyMove_def Let_def split: sum.splits)
  let ?ps = "(players g)[i := resetSkips used]"
  let ?g1 = "g\<lparr>board := ?b, players := ?ps\<rparr>"
  have r1: "skipRuleUnlessStuck ?g1"
    unfolding skipRuleUnlessStuck_def
  proof
    fix p assume "p \<in> set (players ?g1)"
    then have "p = resetSkips used \<or> p \<in> set (players g)"
      using set_update_subset_insert [of "players g" i "resetSkips used"] by auto
    then show "2 \<le> skipsInARow p \<longrightarrow> isEliminated p \<or> \<not> hasLegalMoves (board ?g1) p"
    proof
      assume "p = resetSkips used"
      then show ?thesis by (simp add: resetSkips_def)
    next
      assume "p \<in> set (players g)"
      with r show ?thesis
        unfolding skipRuleUnlessStuck_def by (auto dest: placed_moves)
    qed
  qed
  show ?thesis
  proof (cases "checkWinConditions ?b (color ?player) \<or> isDrawFn ?b ?ps")
    case True
    with \<open>isValidMove g playerId cellIndex sz\<close> fi up a
    have "players g' = ?ps \<and> board g' = ?b"
      by (auto simp: applyMove_def Let_def split: if_splits)
    with r1 show ?thesis by (simp add: skipRuleUnlessStuck_def)
  next
    case False
    with \<open>isValidMove g playerId cellIndex sz\<close> fi up a
    have "moveToNextPlayer now ?g1 = Some g'"
      by (auto simp: applyMove_def Let_def)
    from advance_rule [OF this] r1 show ?thesis by simp
  qed
qed

lemma skipMark_rule_stuck:
  assumes "skipRuleUnlessStuck g"
  shows "skipRuleUnlessStuck (g\<lparr>players := (players g)[i := skipMark (players g ! i)]\<rparr>)"
proof -
  have "set ((players g)[i := skipMark (players g ! i)])
          \<subseteq> insert (skipMark (players g ! i)) (set (players g))"
    by (rule set_update_subset_insert)
  with assms skipMark_rule [of "players g ! i"] show ?thesis
    unfolding skipRuleUnlessStuck_def by auto
qed

lemma checkGameEnd_rule: "skipRuleUnlessStuck (checkGameEnd now g) = skipRuleUnlessStuck g"
  by (simp add: skipRuleUnlessStuck_def checkGameEnd_def Let_def)

lemma skipTurn_rule:
  assumes r: "skipRuleUnlessStuck g" and a: "skipTurn now g = Some (ok, g')"
  shows "skipRuleUnlessStuck g'"
proof (cases "status g \<noteq> playing \<or> noCurrentId g \<or> getCurrentPlayer g = None")
  case True
  with a have "g' = g" by (auto simp: skipTurn_def split: if_splits)
  with r show ?thesis by simp
next
  case False
  then obtain i where i: "getCurrentPlayer g = Some i" by auto
  with False a obtain g2 where
    g2: "moveToNextPlayer now (g\<lparr>players := (players g)[i := skipMark (players g ! i)]\<rparr>) = Some g2"
    and e: "g' = checkGameEnd now g2"
    by (auto simp: skipTurn_def split: option.splits)
  from advance_rule [OF g2] skipMark_rule_stuck [OF r, of i] have "skipRuleUnlessStuck g2" by simp
  with e show ?thesis by (simp add: checkGameEnd_rule)
qed

lemma skipCurrentPlayer_rule:
  assumes r: "skipRuleUnlessStuck g" and a: "skipCurrentPlayer now g = Some g'"
  shows "skipRuleUnlessStuck g'"
proof (cases "status g \<noteq> playing \<or> noCurrentId g")
  case True
  with a r show ?thesis by (simp add: skipCurrentPlayer_def)
next
  case False
  show ?thesis
  proof (cases "getCurrentPlayer g")
    case None
    with False a have "moveToNextPlayer now g = Some g'" by (simp add: skipCurrentPlayer_def)
    from advance_rule [OF this] r show ?thesis by simp
  next
    case (Some i)
    with False a
    have "moveToNextPlayer now (g\<lparr>players := (players g)[i := skipMark (players g ! i)]\<rparr>) = Some g'"
      by (simp add: skipCurrentPlayer_def)
    from advance_rule [OF this] skipMark_rule_stuck [OF r, of i] show ?thesis by simp
  qed
qed

lemma reset_rule: "skipRuleUnlessStuck (reset g)"
  by (simp add: skipRuleUnlessStuck_def reset_def)

lemma reachable_rule: "reachable g \<Longrightarrow> skipRuleUnlessStuck g"
proof (induction rule: reachable.induct)
  case (started now randomIndex uuid ps g0 g)
  then show ?case by (rule initialize_rule)
next
  case (moved g now playerId cellIndex sz ok g')
  then show ?case by (blast intro: applyMove_rule)
next
  case (timedOut g now ok g')
  then show ?case by (blast intro: skipTurn_rule)
next
  case (skipped g now g')
  then show ?case by (blast intro: skipCurrentPlayer_rule)
next
  case (ended g now)
  then show ?case by (simp add: checkGameEnd_rule)
next
  case (cleared g)
  show ?case by (rule reset_rule)
qed

lemma turnFrame_seats:
  assumes "turnFrame h g'"
  shows "length (players g') = length (players h)"
    and "k < length (players h) \<Longrightarrow> isEliminated (players g' ! k) = isEliminated (players h ! k)"
proof -
  from assms have e: "map eraseSkips (players g') = map eraseSkips (players h)"
    by (simp add: turnFrame_def)
  from arg_cong [OF e, of length] show l: "length (players g') = length (players h)" by simp
  assume k: "k < length (players h)"
  then have "eraseSkips (players g' ! k) = eraseSkips (players h ! k)"
    using arg_cong [OF e, of "\<lambda>xs. xs ! k"] l by simp
  then show "isEliminated (players g' ! k) = isEliminated (players h ! k)"
    by (metis eraseSkips_def player.select_convs(7) player.surjective player.update_convs(6))
qed

lemma skipMark_fields:
  "pid (skipMark p) = pid p" "skipsInARow (skipMark p) = skipsInARow p + 1"
  "isEliminated (skipMark p) \<longleftrightarrow> isEliminated p \<or> skipsInARow p + 1 \<ge> 2"
  by (simp_all add: skipMark_def incrementSkips_def eliminate_def Let_def)

lemma forced_skip_effect:
  assumes d: "distinct (map pid (players h))" and st: "status h = playing"
    and c: "getCurrentPlayer h = Some i"
  shows "\<exists>g1 g2. skipTurn now h = Some (True, g1) \<and> skipCurrentPlayer now h = Some g2
           \<and> skippedSeat h i g1 \<and> skippedSeat h i g2"
proof -
  from c have nc: "\<not> noCurrentId h"
    and fi: "findIndex (\<lambda>p. Some (pid p) = currentPlayerId h) (players h) = Some i"
    by (auto simp: getCurrentPlayer_def split: if_splits)
  from fi have i: "i < length (players h)" and cur: "currentPlayerId h = Some (pid (players h ! i))"
    by (simp_all add: findIndex_Some_iff)
  let ?m = "h\<lparr>players := (players h)[i := skipMark (players h ! i)]\<rparr>"
  have pm: "map pid (players ?m) = map pid (players h)"
    using i by (simp add: map_update skipMark_fields list_update_same_conv)
  have "\<exists>g'. moveToNextPlayer now ?m = Some g' \<and> turnFrame ?m g'
           \<and> skipsInARow (players g' ! i) = skipsInARow (players ?m ! i)"
  proof (rule current_seat_not_autoskipped)
    show "distinct (map pid (players ?m))" using d pm by simp
    show "i < length (players ?m)" using i by simp
    show "currentPlayerId ?m = Some (pid (players ?m ! i))"
      using cur i by (simp add: skipMark_fields)
  qed
  then obtain g' where g': "moveToNextPlayer now ?m = Some g'" and fr: "turnFrame ?m g'"
    and cnt: "skipsInARow (players g' ! i) = skipsInARow (players ?m ! i)" by blast
  have sk: "skippedSeat h i g'"
    unfolding skippedSeat_def
  proof (intro conjI allI impI)
    show "length (players g') = length (players h)"
      using turnFrame_seats(1) [OF fr] by simp
    show "skipsInARow (players g' ! i) = skipsInARow (players h ! i) + 1"
      using cnt i by (simp add: skipMark_fields)
    then show "isEliminated (players g' ! i) \<longleftrightarrow>
        isEliminated (players h ! i) \<or> skipsInARow (players g' ! i) \<ge> 2"
      using turnFrame_seats(2) [OF fr, of i] i by (simp add: skipMark_fields)
    fix k assume "k < length (players h)" "k \<noteq> i"
    then show "isEliminated (players g' ! k) = isEliminated (players h ! k)"
      using turnFrame_seats(2) [OF fr, of k] by simp
  qed
  then have sk2: "skippedSeat h i (checkGameEnd now g')"
    by (simp add: skippedSeat_def)
  have "skipTurn now h = Some (True, checkGameEnd now g')"
    using st nc c g' by (simp add: skipTurn_def)
  moreover have "skipCurrentPlayer now h = Some g'"
    using st nc c g' by (simp add: skipCurrentPlayer_def)
  ultimately show ?thesis using sk sk2 by blast
qed

lemma reachable_playMoves:
  "reachable g \<Longrightarrow> playMoves g ms = Some g' \<Longrightarrow> reachable g'"
proof (induction ms arbitrary: g)
  case Nil
  then show ?case by simp
next
  case (Cons m ms)
  obtain p c s where m: "m = (p, c, s)" by (cases m) auto
  from Cons.prems(2) m obtain g1 where a: "applyMove 0 g p c s = Some (True, g1)"
    and r: "playMoves g1 ms = Some g'"
    by (auto split: option.splits bool.splits prod.splits)
  from Cons.prems(1) a have "reachable g1" by (rule reachable.moved)
  from Cons.IH [OF this r] show ?case .
qed

text \<open>
  C3, as stated: in every reachable state a seat whose skip counter is at least 2 is
  eliminated, also when the counter was incremented by an automatic skip. It fails: in
  the match \<open>twiceSkipped\<close>, reached by fourteen accepted moves, seat b has been passed
  over twice for want of a legal move; its counter is 2, it is not eliminated and the
  match is still playing.
\<close>

theorem auto_skip_counter_counterexample:
  "map_option skipStates twiceSkipped = Some [(''a'', 0, False), (''b'', 2, False)]
   \<and> map_option status twiceSkipped = Some playing"
  by code_simp

text \<open>
  C3, amended: in every state a match reaches from its initialisation, by moves, forced
  skips, the end-of-match check and resets, a seat whose skip counter is at least 2 is
  eliminated or has no legal move: the automatic skip of turn advancement, which passes
  over seats without a legal move only, adds to the counter without eliminating. A forced
  skip (\<open>skipTurn\<close>, \<open>skipCurrentPlayer\<close>) of a playing match with distinct seat ids returns,
  adds exactly one to the counter of the current seat, eliminates that seat exactly when
  its counter has reached 2, and eliminates no other seat.
\<close>

theorem skip_counter_rule:
  "(reachable g \<longrightarrow>
      (\<forall>p \<in> set (players g). skipsInARow p \<ge> 2 \<longrightarrow>
                                    isEliminated p \<or> \<not> hasLegalMoves (board g) p))
   \<and> (distinct (map pid (players h)) \<and> status h = playing \<and> getCurrentPlayer h = Some i \<longrightarrow>
      (\<exists>g1 g2. skipTurn now h = Some (True, g1) \<and> skipCurrentPlayer now h = Some g2
           \<and> skippedSeat h i g1 \<and> skippedSeat h i g2))"
  using reachable_rule [of g] forced_skip_effect [of h i now]
  unfolding skipRuleUnlessStuck_def by blast

theorem skip_counter_rule_witness:
  "reachable skippedTwice
   \<and> skipStates skippedTwice = [(''a'', 0, False), (''b'', 2, False)]
   \<and> \<not> hasLegalMoves (board skippedTwice) (players skippedTwice ! 1)
   \<and> distinct (map pid (players abGame)) \<and> status abGame = playing
   \<and> getCurrentPlayer abGame = Some 0
   \<and> (\<exists>g1 g2. skipTurn 1 abGame = Some (True, g1) \<and> skipCurrentPlayer 1 abGame = Some g2
          \<and> skippedSeat abGame 0 g1 \<and> skippedSeat abGame 0 g2)"
proof -
  have "initialize 0 0 freshIds [seatA, seatB] newGame = Inr abGame" by code_simp
  then have "reachable abGame" by (rule reachable.started)
  moreover have "playMoves abGame (fillingMoves @ [(''a'', 0, G), (''a'', 2, G)]) = Some skippedTwice"
    by code_simp
  ultimately have r: "reachable skippedTwice" by (rule reachable_playMoves)
  have s: "skipStates skippedTwice = [(''a'', 0, False), (''b'', 2, False)]" by code_simp
  have b: "players skippedTwice ! 1 \<in> set (players skippedTwice)
       \<and> skipsInARow (players skippedTwice ! 1) \<ge> 2
       \<and> \<not> isEliminated (players skippedTwice ! 1)" by code_simp
  have d: "distinct (map pid (players abGame))" by code_simp
  have p: "status abGame = playing" by code_simp
  have c: "getCurrentPlayer abGame = Some 0" by code_simp
  from skip_counter_rule [of skippedTwice abGame 0 1] r b d p c s show ?thesis by blast
qed

text \<open>
  C5, as stated: when turn advancement finds no active seat the match finishes, with the
  only uneliminated seat as winner, or else as a draw. It fails: in \<open>loneEnd\<close>, seat b was
  disconnected from the start and seat a is eliminated by its second skip; no seat is
  active, b is the one uneliminated seat, the match is finished, and it has neither a
  winner nor the draw flag.
\<close>

theorem no_active_seat_counterexample:
  "map_option verdict loneEnd = Some (finished, None, False)
   \<and> map_option uneliminatedIds loneEnd = Some [''b'']
   \<and> map_option activeIds loneEnd = Some []"
  by code_simp

text \<open>
  C5, amended: when turn advancement runs and no seat is active, the match becomes
  finished and its end time is set; the winner, the draw flag and everything else stay as
  they were.
\<close>

theorem turn_advance_without_active_seat:
  "activeRefs (players g) = [] \<Longrightarrow>
   moveToNextPlayer now g = Some (g\<lparr>status := finished, finishedAt := Some now\<rparr>)"
  by (subst moveToNextPlayer_step) simp

theorem turn_advance_without_active_seat_witness:
  "activeRefs (players loneMarked) = [] \<and> status loneMarked = playing
   \<and> moveToNextPlayer 2 loneMarked = Some (loneMarked\<lparr>status := finished, finishedAt := Some 2\<rparr>)
   \<and> verdict (loneMarked\<lparr>status := finished, finishedAt := Some 2\<rparr>) = (finished, None, False)"
proof -
  have a: "activeRefs (players loneMarked) = []" by code_simp
  have s: "status loneMarked = playing" by code_simp
  have v: "verdict (loneMarked\<lparr>status := finished, finishedAt := Some 2\<rparr>) = (finished, None, False)"
    by code_simp
  from turn_advance_without_active_seat [OF a, of 2] a s v show ?thesis by simp
qed

text \<open>
  C7: once a match is finished its board, winner and draw flag are not written again; no
  winner is ever recorded on a match that finished as a draw. The code breaks this inside
  \<open>skipTurn\<close>: from the playing match \<open>stuckGame\<close>, the second timeout of seat a
  eliminates a, turn advancement finds the only active seat b without a legal move and
  finishes the match as a draw, and the call of \<open>checkGameEnd\<close> that follows, which does
  not test the status, records b as winner of that finished match.
\<close>

theorem checkGameEnd_overwrites_draw:
  "status stuckGame = playing
   \<and> map_option verdict drawnBeforeCheck = Some (finished, None, True)
   \<and> map_option verdict (map_option (checkGameEnd 7) drawnBeforeCheck)
        = Some (finished, Some ''b'', True)
   \<and> map_option snd afterTimeouts = map_option (checkGameEnd 7) drawnBeforeCheck"
  by code_simp

section \<open>Seats of a new match\<close>

lemma dropWhile_unchanged: "xs \<noteq> [] \<Longrightarrow> \<not> Q (hd xs) \<Longrightarrow> dropWhile Q xs = xs"
  by (cases xs) simp_all

lemma trim_ends:
  assumes "trim s \<noteq> []"
  shows "\<not> isWhiteSpace (hd (trim s)) \<and> \<not> isWhiteSpace (last (trim s))"
proof -
  let ?u = "dropWhile isWhiteSpace s"
  let ?v = "dropWhile isWhiteSpace (rev ?u)"
  have v: "?v \<noteq> []" using assms by (simp add: trim_def)
  have u: "?u \<noteq> []"
  proof
    assume e: "?u = []"
    have "?v = []" unfolding e by simp
    with v show False ..
  qed
  have l: "\<not> isWhiteSpace (hd ?v)" using v by (rule hd_dropWhile)
  have "last ?v = last (rev ?u)"
  proof -
    have "rev ?u = takeWhile isWhiteSpace (rev ?u) @ ?v" by simp
    with v show ?thesis by (metis last_appendR)
  qed
  also have "\<dots> = hd ?u" using u by (simp add: last_rev)
  finally have "last ?v = hd ?u" .
  moreover have "\<not> isWhiteSpace (hd ?u)" using u by (rule hd_dropWhile)
  ultimately have h: "\<not> isWhiteSpace (last ?v)" by simp
  from v l h show ?thesis by (simp add: trim_def hd_rev last_rev)
qed

lemma trim_idem: "trim (trim s) = trim s"
proof (cases "trim s = []")
  case True
  have "trim [] = []" by (simp add: trim_def)
  with True show ?thesis by simp
next
  case False
  from trim_ends [OF False] have h: "\<not> isWhiteSpace (hd (trim s))"
    and l: "\<not> isWhiteSpace (last (trim s))" by simp_all
  have 1: "dropWhile isWhiteSpace (trim s) = trim s"
    using False h by (rule dropWhile_unchanged)
  have "rev (trim s) \<noteq> []" "\<not> isWhiteSpace (hd (rev (trim s)))"
    using False l by (simp_all add: hd_rev)
  then have 2: "dropWhile isWhiteSpace (rev (trim s)) = rev (trim s)"
    by (rule dropWhile_unchanged)
  show ?thesis
    by (subst (1) trim_def) (simp add: 1 2)
qed

lemma length_trim: "length (trim s) \<le> length s"
proof -
  have "length (dropWhile isWhiteSpace (rev (dropWhile isWhiteSpace s)))
          \<le> length (rev (dropWhile isWhiteSpace s))"
    by (rule length_dropWhile_le)
  also have "\<dots> \<le> length s" by (simp add: length_dropWhile_le)
  finally show ?thesis by (simp add: trim_def)
qed

lemma newPlayer_wellFormed:
  assumes "newPlayer u opts = Inr p" and "u \<noteq> []"
  shows "wellFormedSeat p"
proof -
  from assms(1) have ok: "trim (opt_nickname opts) \<noteq> []" "length (opt_nickname opts) \<le> 20"
    and p: "nickname p = trim (opt_nickname opts)"
    "pid p = (case opt_id opts of None \<Rightarrow> u | Some i \<Rightarrow> if i = [] then u else i)"
    by (auto simp: newPlayer_def split: if_splits)
  have "length (nickname p) \<le> 20"
    using length_trim [of "opt_nickname opts"] ok(2) p(1) by simp
  moreover have "pid p \<noteq> []"
    using assms(2) p(2) by (simp split: option.split)
  ultimately show ?thesis
    using ok p by (simp add: wellFormedSeat_def trim_idem)
qed

lemma addPlayer_wellFormed:
  assumes "addPlayer now randomIndex uuid r player = Inr (ok, r')"
    and "list_all wellFormedSeat (roomPlayers r)" and "uuid 0 \<noteq> []"
  shows "list_all wellFormedSeat (roomPlayers r')"
  using assms
  by (auto simp: addPlayer_def startGame_def resetTTL_def Let_def
        split: if_splits option.splits sum.splits dest: newPlayer_wellFormed)


lemma newRoom_openTable: "newRoom 0 ''r1'' tableOptions = Inr openTable"
proof -
  have t: "trim ''Table'' = ''Table''" by code_simp
  show ?thesis by (simp add: newRoom_def tableOptions_def openTable_def t)
qed

lemma newPlayer_wellFormed_copy:
  assumes "wellFormedSeat p"
  shows "newPlayer u \<lparr>opt_id = Some (pid p), opt_nickname = nickname p, opt_color = c,
                      opt_connected = Some (connected p), opt_isHost = Some h\<rparr>
         = Inr \<lparr>pid = pid p, nickname = nickname p, color = c,
                inventory = \<lparr>invP = 3, invM = 3, invG = 3\<rparr>, connected = connected p,
                skipsInARow = 0, isEliminated = False, isHost = h\<rparr>"
  using assms by (simp add: newPlayer_def wellFormedSeat_def)

lemma initPlayers_copies:
  assumes "\<forall>p \<in> set ps. wellFormedSeat p" and "k + length ps \<le> 4"
  shows "\<exists>qs. initPlayers uuid k ps = Inr qs \<and> map pid qs = map pid ps
           \<and> map nickname qs = map nickname ps
           \<and> map color qs = take (length ps) (drop k palette)
           \<and> map connected qs = map connected ps \<and> map isHost qs = map isHost ps"
  using assms
proof (induction ps arbitrary: k)
  case Nil
  then show ?case by simp
next
  case (Cons p ps)
  then have k: "k < 4" and wf: "wellFormedSeat p" by simp_all
  from Cons.prems have "\<forall>p \<in> set ps. wellFormedSeat p" "Suc k + length ps \<le> 4" by simp_all
  from Cons.IH [OF this]
  obtain qs where qs: "initPlayers uuid (Suc k) ps = Inr qs" "map pid qs = map pid ps"
    "map nickname qs = map nickname ps" "map color qs = take (length ps) (drop (Suc k) palette)"
    "map connected qs = map connected ps" "map isHost qs = map isHost ps"
    by blast
  have pl: "length palette = 4" by (simp add: palette_def)
  have dr: "drop k palette = palette ! k # drop (Suc k) palette"
    using k pl by (simp add: Cons_nth_drop_Suc)
  show ?case
    using k pl qs by (simp add: newPlayer_wellFormed_copy [OF wf] dr)
qed

text \<open>
  C9, as stated: every seat of a started or restarted match keeps the id, nickname and
  colour the seat has in the room. It fails for the colour: in a room for three, a and b
  join (red, blue), a leaves, c joins and receives the first unused colour, red, then d
  joins (green) and the match starts. The room holds b blue, c red, d green; the match
  holds b red, c blue, d green.
\<close>

theorem match_colours_counterexample:
  "map_option seatsOfRoom rejoined
     = Some [(''b'', ''Bob'', blue), (''c'', ''Cy'', red), (''d'', ''Dee'', green)]
   \<and> map_option seatsOfMatch rejoined
     = Some [(''b'', ''Bob'', red), (''c'', ''Cy'', blue), (''d'', ''Dee'', green)]
   \<and> map_option status (map_option roomGame rejoined) = Some playing"
  by code_simp

text \<open>
  C9, amended: whenever a match is started or restarted for a room of two to four seats,
  the room keeps its seats, and every seat of the new match has the id and nickname of
  the room's seat at the same position; its colour is the palette entry of that position
  (red, blue, green, yellow in seat order), whatever colour the room assigned on join.
  The random index of the first player lies within the seats. The room's seats are as the constructor leaves them (lemmas \<open>newPlayer_wellFormed\<close>,
  \<open>addPlayer_wellFormed\<close>).
\<close>

theorem match_seats_from_room:
  assumes wf: "list_all wellFormedSeat (roomPlayers r)"
    and n: "2 \<le> length (roomPlayers r)" "length (roomPlayers r) \<le> 4"
    and ri: "randomIndex < length (roomPlayers r)"
  shows "(\<exists>r'. startGame now randomIndex uuid r = Inr r' \<and> seatsKept r r')
       \<and> (\<exists>r'. replay now randomIndex uuid r = Inr r' \<and> seatsKept r r')"
proof -
  from n have "0 + length (roomPlayers r) \<le> 4" by simp
  from wf have wf': "\<forall>p \<in> set (roomPlayers r). wellFormedSeat p"
    by (simp add: list_all_iff)
  from initPlayers_copies [OF wf' \<open>0 + length (roomPlayers r) \<le> 4\<close>, of uuid]
  obtain qs where qs: "initPlayers uuid 0 (roomPlayers r) = Inr qs"
    "map pid qs = map pid (roomPlayers r)" "map nickname qs = map nickname (roomPlayers r)"
    "map color qs = take (length (roomPlayers r)) palette"
    by auto
  from qs(2) have len: "length qs = length (roomPlayers r)"
    by (metis length_map)
  have a: "\<exists>r'. startGame now randomIndex uuid r = Inr r' \<and> seatsKept r r'"
    using n qs ri len by (simp add: startGame_def initialize_def seatsKept_def resetTTL_def)
  have b: "\<exists>r'. replay now randomIndex uuid r = Inr r' \<and> seatsKept r r'"
    using n qs ri len by (simp add: replay_def initialize_def seatsKept_def resetTTL_def)
  from a b show ?thesis ..
qed


theorem match_seats_from_room_witness:
  "list_all wellFormedSeat (roomPlayers pairTable)
   \<and> length (roomPlayers pairTable) = 2
   \<and> (\<exists>r'. startGame 9 1 freshIds pairTable = Inr r' \<and> seatsKept pairTable r')
   \<and> (\<exists>r'. replay 9 1 freshIds pairTable = Inr r' \<and> seatsKept pairTable r')
   \<and> seatsOfRoom pairTable = [(''a'', ''Ann'', red), (''b'', ''Bob'', blue)]"
proof -
  have wf: "list_all wellFormedSeat (roomPlayers pairTable)" by code_simp
  have n: "length (roomPlayers pairTable) = 2" by code_simp
  have s: "seatsOfRoom pairTable = [(''a'', ''Ann'', red), (''b'', ''Bob'', blue)]"
    by code_simp
  from n have "2 \<le> length (roomPlayers pairTable)" "length (roomPlayers pairTable) \<le> 4"
    by simp_all
  moreover from n have "1 < length (roomPlayers pairTable)" by simp
  ultimately show ?thesis
    using match_seats_from_room [of pairTable 1 9 freshIds] wf n s by blast
qed

section \<open>Replay votes\<close>

lemma connected_ids_iff:
  "list_ex (\<lambda>p. pid p = i \<and> connected p) (roomPlayers r) \<longleftrightarrow> i \<in> set (connectedIds r)"
  by (auto simp: connectedIds_def list_ex_iff)

lemma map_of_mapSet: "map_of (mapSet k v kvs) = (map_of kvs)(k \<mapsto> v)"
  by (induction kvs) (auto simp: fun_eq_iff)

lemma keys_mapSet: "set (map fst (mapSet k v kvs)) = insert k (set (map fst kvs))"
  by (induction kvs) auto

lemma distinct_mapSet: "distinct (map fst kvs) \<Longrightarrow> distinct (map fst (mapSet k v kvs))"
proof (induction kvs)
  case Nil
  then show ?case by simp
next
  case (Cons kv kvs)
  then show ?case using keys_mapSet [of k v kvs] by (auto simp del: set_map)
qed

lemma map_of_mapDelete: "map_of (mapDelete k kvs) = (map_of kvs)(k := None)"
  by (induction kvs) (auto simp: mapDelete_def fun_eq_iff)

lemma all_voted_iff:
  assumes "distinct req" "distinct (map fst kvs)" "set (map fst kvs) \<subseteq> set req"
  shows "length kvs = length req \<longleftrightarrow> (\<forall>q \<in> set req. map_of kvs q \<noteq> None)"
proof -
  have lk: "length kvs = card (set (map fst kvs))"
    using distinct_card [OF assms(2)] by simp
  have lr: "length req = card (set req)"
    using distinct_card [OF assms(1)] by simp
  have dom: "\<And>q. map_of kvs q \<noteq> None \<longleftrightarrow> q \<in> set (map fst kvs)"
    by (simp add: map_of_eq_None_iff)
  show ?thesis
  proof
    assume "length kvs = length req"
    with lk lr have "card (set (map fst kvs)) = card (set req)" by simp
    with assms(3) have "set (map fst kvs) = set req"
      by (simp add: card_subset_eq)
    then show "\<forall>q \<in> set req. map_of kvs q \<noteq> None" using dom by blast
  next
    assume "\<forall>q \<in> set req. map_of kvs q \<noteq> None"
    with dom have "set req \<subseteq> set (map fst kvs)" by blast
    with assms(3) have "set (map fst kvs) = set req" by blast
    with lk lr show "length kvs = length req" by simp
  qed
qed

lemma all_yes_iff:
  assumes "distinct (map fst kvs)"
  shows "list_all (\<lambda>vote. vote = True) (map snd kvs)
           \<longleftrightarrow> (\<forall>q \<in> set (map fst kvs). map_of kvs q = Some True)"
proof -
  have m: "\<And>q v. map_of kvs q = Some v \<longleftrightarrow> (q, v) \<in> set kvs"
    using assms by simp
  show ?thesis
  proof
    assume a: "list_all (\<lambda>vote. vote = True) (map snd kvs)"
    show "\<forall>q \<in> set (map fst kvs). map_of kvs q = Some True"
    proof
      fix q assume "q \<in> set (map fst kvs)"
      then obtain v where qv: "(q, v) \<in> set kvs" by auto
      then have "v \<in> set (map snd kvs)" by force
      moreover from a have "\<forall>x \<in> set (map snd kvs). x = True"
        unfolding list_all_iff .
      ultimately have "v = True" by blast
      with qv show "map_of kvs q = Some True" by (simp add: m)
    qed
  next
    assume a: "\<forall>q \<in> set (map fst kvs). map_of kvs q = Some True"
    show "list_all (\<lambda>vote. vote = True) (map snd kvs)"
      unfolding list_all_iff
    proof
      fix v assume "v \<in> set (map snd kvs)"
      then obtain q where qv: "(q, v) \<in> set kvs" by auto
      then have "q \<in> set (map fst kvs)" by force
      with a have "map_of kvs q = Some True" by blast
      moreover from qv have "map_of kvs q = Some v" by (simp add: m)
      ultimately show "v = True" by simp
    qed
  qed
qed

lemma startReplayVote_snapshot:
  assumes d: "distinct (map pid (roomPlayers r))"
  shows "\<exists>ok m'. startReplayVote now r opt m = (ok, m')
        \<and> (ok \<longleftrightarrow> status (roomGame r) = finished \<and> connectedIds r \<noteq> [])
        \<and> (ok \<longrightarrow> (\<exists>vs. openVote m' (roomId r) = Some vs \<and> voteStateOk vs
                     \<and> requiredVoters vs = connectedIds r \<and> tally vs = Map.empty))"
proof (cases "status (roomGame r) = finished \<and> connectedIds r \<noteq> []")
  case False
  then show ?thesis
    by (auto simp: startReplayVote_def Let_def connectedIds_def)
next
  case True
  have "distinct (connectedIds r)"
    using d unfolding connectedIds_def by (simp add: distinct_map_filter)
  with True show ?thesis
    by (intro exI [of _ True] exI [of _ "snd (startReplayVote now r opt m)"])
       (simp add: startReplayVote_def Let_def connectedIds_def openVote_def emitEvent_def
          map_of_mapSet voteStateOk_def tally_def)
qed

lemma castVote_snapshot:
  assumes o: "openVote m rid = Some vs" and w: "voteStateOk vs"
  shows "\<exists>ok m'. castVote rid p v m = (ok, m')
        \<and> (ok \<longleftrightarrow> p \<in> set (requiredVoters vs))
        \<and> (\<not> ok \<longrightarrow> m' = m)
        \<and> (ok \<and> \<not> everyoneVoted (requiredVoters vs) ((tally vs)(p \<mapsto> v)) \<longrightarrow>
             events m' = events m @ [vote_cast rid p v]
             \<and> (\<exists>vs'. openVote m' rid = Some vs' \<and> voteStateOk vs'
                     \<and> requiredVoters vs' = requiredVoters vs
                     \<and> tally vs' = (tally vs)(p \<mapsto> v)))
        \<and> (ok \<and> everyoneVoted (requiredVoters vs) ((tally vs)(p \<mapsto> v)) \<longrightarrow>
             openVote m' rid = None
             \<and> events m' = events m @
                 [vote_cast rid p v,
                  vote_completed rid
                    (if everyoneYes (requiredVoters vs) ((tally vs)(p \<mapsto> v))
                     then Approved else Rejected)])"
proof -
  define t where "t = (tally vs)(p \<mapsto> v)"
  define req where "req = requiredVoters vs"
  define kvs where "kvs = mapSet p v (votes vs)"
  from o have l: "map_of (voteStates m) rid = Some vs" and a: "rv_isActive vs"
    by (auto simp: openVote_def split: option.splits if_splits)
  have goal: "\<exists>ok m'. castVote rid p v m = (ok, m')
        \<and> (ok \<longleftrightarrow> p \<in> set req)
        \<and> (\<not> ok \<longrightarrow> m' = m)
        \<and> (ok \<and> \<not> everyoneVoted req t \<longrightarrow>
             events m' = events m @ [vote_cast rid p v]
             \<and> (\<exists>vs'. openVote m' rid = Some vs' \<and> voteStateOk vs'
                     \<and> requiredVoters vs' = req \<and> tally vs' = t))
        \<and> (ok \<and> everyoneVoted req t \<longrightarrow>
             openVote m' rid = None
             \<and> events m' = events m @
                 [vote_cast rid p v,
                  vote_completed rid (if everyoneYes req t then Approved else Rejected)])"
  proof (cases "p \<in> set req")
    case False
    with l a have "castVote rid p v m = (False, m)" by (simp add: castVote_def req_def)
    with False show ?thesis
      by (intro exI [of _ False] exI [of _ m]) simp
  next
    case True
    let ?vs = "vs\<lparr>votes := kvs\<rparr>"
    let ?m1 = "emitEvent (vote_cast rid p v) (m\<lparr>voteStates := mapSet rid ?vs (voteStates m)\<rparr>)"
    have mo: "map_of kvs = t" by (simp add: t_def kvs_def tally_def map_of_mapSet)
    have dk: "distinct (map fst kvs)"
      using w distinct_mapSet [of "votes vs" p v] by (simp add: voteStateOk_def kvs_def)
    have dr: "distinct req" using w by (simp add: voteStateOk_def req_def)
    have sub: "set (map fst kvs) \<subseteq> set req"
      using w True keys_mapSet [of p v "votes vs"]
      by (simp add: voteStateOk_def kvs_def req_def del: set_map)
    have w': "voteStateOk ?vs"
      using dk dr sub by (simp add: voteStateOk_def req_def)
    have full: "length kvs = length req \<longleftrightarrow> everyoneVoted req t"
      using all_voted_iff [OF dr dk sub] unfolding everyoneVoted_def mo .
    have l1: "map_of (voteStates ?m1) rid = Some ?vs"
      by (simp add: emitEvent_def map_of_mapSet)
    have e1: "events ?m1 = events m @ [vote_cast rid p v]"
      by (simp add: emitEvent_def)
    show ?thesis
    proof (cases "everyoneVoted req t")
      case False
      with full l a True have "castVote rid p v m = (True, ?m1)"
        by (simp add: castVote_def Let_def req_def kvs_def)
      moreover have "openVote ?m1 rid = Some ?vs"
        using l1 a by (simp add: openVote_def)
      moreover have "requiredVoters ?vs = req" "tally ?vs = t"
        using mo by (simp_all add: req_def tally_def)
      ultimately show ?thesis
        using True False e1 w'
        by (intro exI [of _ True] exI [of _ ?m1]) simp
    next
      case all: True
      with full l a True have c: "castVote rid p v m = (True, completeVote rid ?m1)"
        by (simp add: castVote_def Let_def req_def kvs_def)
      have keys: "set (map fst kvs) = set req"
      proof
        show "set (map fst kvs) \<subseteq> set req" by (rule sub)
        show "set req \<subseteq> set (map fst kvs)"
        proof
          fix q assume "q \<in> set req"
          with all have "map_of kvs q \<noteq> None"
            unfolding mo by (simp add: everyoneVoted_def)
          then show "q \<in> set (map fst kvs)"
            by (simp add: map_of_eq_None_iff)
        qed
      qed
      have yes: "list_all (\<lambda>vote. vote = True) (map snd kvs) \<longleftrightarrow> everyoneYes req t"
        using all_yes_iff [OF dk] unfolding keys everyoneYes_def mo .
      have len: "length (map snd kvs) = length req"
        using full all by simp
      have done1: "openVote (completeVote rid ?m1) rid = None"
        using l1 a
        by (simp add: completeVote_def Let_def openVote_def emitEvent_def map_of_mapDelete
                 split: option.splits)
      have done2: "events (completeVote rid ?m1) = events m @
                 [vote_cast rid p v,
                  vote_completed rid (if everyoneYes req t then Approved else Rejected)]"
      proof (cases "everyoneYes req t")
        case True
        with l1 a len yes e1 show ?thesis
          by (simp add: completeVote_def Let_def emitEvent_def req_def split: option.splits)
      next
        case False
        with l1 a len yes e1 show ?thesis
          by (simp add: completeVote_def Let_def emitEvent_def req_def split: option.splits)
      qed
      from c True all done1 done2 show ?thesis
        by (intro exI [of _ True] exI [of _ "completeVote rid ?m1"]) simp
    qed
  qed
  then show ?thesis unfolding t_def req_def .
qed

lemma castReplayVote_live:
  "\<exists>ok r'. castReplayVote now r p v = (ok, r')
        \<and> (ok \<longleftrightarrow> voteOpen now r \<and> p \<in> set (connectedIds r))
        \<and> (\<not> ok \<longrightarrow> r' = r)
        \<and> (ok \<longrightarrow> replayVotes r' p = Some v
                 \<and> (\<forall>q. q \<noteq> p \<longrightarrow> replayVotes r' q = replayVotes r q)
                 \<and> roomPlayers r' = roomPlayers r \<and> replayDeadline r' = replayDeadline r)"
proof (cases "voteOpen now r \<and> p \<in> set (connectedIds r)")
  case True
  then show ?thesis
    by (intro exI [of _ True] exI [of _ "r\<lparr>replayVotes := (replayVotes r)(p \<mapsto> v)\<rparr>"])
       (auto simp: castReplayVote_def voteOpen_def connected_ids_iff)
next
  case False
  then show ?thesis
    by (intro exI [of _ False] exI [of _ r])
       (auto simp: castReplayVote_def voteOpen_def connected_ids_iff)
qed

lemma checkReplayVotes_live:
  "checkReplayVotes now r =
        (if \<not> voteOpen now r then rejected
         else if \<not> everyoneVoted (connectedIds r) (replayVotes r) then pending
         else if everyoneYes (connectedIds r) (replayVotes r) then accepted else rejected)"
proof -
  have v: "list_all (\<lambda>p. replayVotes r (pid p) \<noteq> None) (filter connected (roomPlayers r))
          \<longleftrightarrow> everyoneVoted (connectedIds r) (replayVotes r)"
    by (auto simp: everyoneVoted_def connectedIds_def list_all_iff)
  have y: "list_all (\<lambda>p. replayVotes r (pid p) = Some True) (filter connected (roomPlayers r))
          \<longleftrightarrow> everyoneYes (connectedIds r) (replayVotes r)"
    by (auto simp: everyoneYes_def connectedIds_def list_all_iff)
  show ?thesis
    unfolding checkReplayVotes_def Let_def v y voteOpen_def by auto
qed

text \<open>
  C4, as stated: the seats whose votes are accepted, required and counted are exactly the
  seats connected when the vote was opened. It fails on the vote the room runs (the one
  the server dispatches to). With a, b, c connected at the opening, c disconnects: its
  vote is then refused and the vote is accepted on the votes of a and b alone. With c
  disconnected at the opening and connected during the window, its vote is accepted and
  its missing vote keeps the result pending.
\<close>

theorem replay_voter_set_counterexample:
  "map_option verdict (map_option roomGame votingTable) = Some (finished, Some ''a'', False)
   \<and> map_option connectedIds votingTable = Some [''a'', ''b'', ''c'']
   \<and> dropOutcome = Some (False, accepted)
   \<and> lateOutcome = Some ([''a'', ''b''], True, pending)"
  by code_simp

text \<open>
  C4, amended. A vote run by the replay manager has the voter set of the claim: a vote
  started on a room (with distinct seat ids) succeeds exactly when the match is finished
  and some seat is connected, and its required voters are the seats connected then;
  \<open>castVote\<close> accepts a vote exactly from a required voter and records it, whatever the
  connections have become; the vote completes exactly when every required voter has a
  recorded vote, approved when all of them are yes and rejected otherwise. The vote the
  room itself runs (the one the server dispatches to) uses the seats connected at the
  moment of each call: \<open>castReplayVote\<close> accepts a vote exactly when the window is open
  and the seat is in the room and connected at the time of the cast, and records it;
  while the window is open \<open>checkReplayVotes\<close> is pending when some seat connected at the
  time of the check has no recorded vote, accepted when every such seat has the recorded
  vote yes, and rejected otherwise.
\<close>

theorem replay_vote_voter_sets:
  "(distinct (map pid (roomPlayers r0)) \<longrightarrow>
     (\<exists>ok m'. startReplayVote now0 r0 opt m0 = (ok, m')
        \<and> (ok \<longleftrightarrow> status (roomGame r0) = finished \<and> connectedIds r0 \<noteq> [])
        \<and> (ok \<longrightarrow> (\<exists>vs. openVote m' (roomId r0) = Some vs \<and> voteStateOk vs
                     \<and> requiredVoters vs = connectedIds r0 \<and> tally vs = Map.empty))))
   \<and> (openVote m rid = Some vs \<and> voteStateOk vs \<longrightarrow>
     (\<exists>ok m'. castVote rid p v m = (ok, m')
        \<and> (ok \<longleftrightarrow> p \<in> set (requiredVoters vs))
        \<and> (\<not> ok \<longrightarrow> m' = m)
        \<and> (ok \<and> \<not> everyoneVoted (requiredVoters vs) ((tally vs)(p \<mapsto> v)) \<longrightarrow>
             events m' = events m @ [vote_cast rid p v]
             \<and> (\<exists>vs'. openVote m' rid = Some vs' \<and> voteStateOk vs'
                     \<and> requiredVoters vs' = requiredVoters vs
                     \<and> tally vs' = (tally vs)(p \<mapsto> v)))
        \<and> (ok \<and> everyoneVoted (requiredVoters vs) ((tally vs)(p \<mapsto> v)) \<longrightarrow>
             openVote m' rid = None
             \<and> events m' = events m @
                 [vote_cast rid p v,
                  vote_completed rid
                    (if everyoneYes (requiredVoters vs) ((tally vs)(p \<mapsto> v))
                     then Approved else Rejected)])))
   \<and> (\<exists>ok r'. castReplayVote now r p v = (ok, r')
        \<and> (ok \<longleftrightarrow> voteOpen now r \<and> p \<in> set (connectedIds r))
        \<and> (\<not> ok \<longrightarrow> r' = r)
        \<and> (ok \<longrightarrow> replayVotes r' p = Some v
                 \<and> (\<forall>q. q \<noteq> p \<longrightarrow> replayVotes r' q = replayVotes r q)
                 \<and> roomPlayers r' = roomPlayers r \<and> replayDeadline r' = replayDeadline r))
   \<and> checkReplayVotes now r =
        (if \<not> voteOpen now r then rejected
         else if \<not> everyoneVoted (connectedIds r) (replayVotes r) then pending
         else if everyoneYes (connectedIds r) (replayVotes r) then accepted else rejected)"
proof (intro conjI impI)
  assume "distinct (map pid (roomPlayers r0))"
  then show "\<exists>ok m'. startReplayVote now0 r0 opt m0 = (ok, m')
        \<and> (ok \<longleftrightarrow> status (roomGame r0) = finished \<and> connectedIds r0 \<noteq> [])
        \<and> (ok \<longrightarrow> (\<exists>vs. openVote m' (roomId r0) = Some vs \<and> voteStateOk vs
                     \<and> requiredVoters vs = connectedIds r0 \<and> tally vs = Map.empty))"
    by (rule startReplayVote_snapshot)
next
  assume "openVote m rid = Some vs \<and> voteStateOk vs"
  then have "openVote m rid = Some vs" "voteStateOk vs" by simp_all
  then show "\<exists>ok m'. castVote rid p v m = (ok, m')
        \<and> (ok \<longleftrightarrow> p \<in> set (requiredVoters vs))
        \<and> (\<not> ok \<longrightarrow> m' = m)
        \<and> (ok \<and> \<not> everyoneVoted (requiredVoters vs) ((tally vs)(p \<mapsto> v)) \<longrightarrow>
             events m' = events m @ [vote_cast rid p v]
             \<and> (\<exists>vs'. openVote m' rid = Some vs' \<and> voteStateOk vs'
                     \<and> requiredVoters vs' = requiredVoters vs
                     \<and> tally vs' = (tally vs)(p \<mapsto> v)))
        \<and> (ok \<and> everyoneVoted (requiredVoters vs) ((tally vs)(p \<mapsto> v)) \<longrightarrow>
             openVote m' rid = None
             \<and> events m' = events m @
                 [vote_cast rid p v,
                  vote_completed rid
                    (if everyoneYes (requiredVoters vs) ((tally vs)(p \<mapsto> v))
                     then Approved else Rejected)])"
    by (rule castVote_snapshot)
next
  show "\<exists>ok r'. castReplayVote now r p v = (ok, r')
        \<and> (ok \<longleftrightarrow> voteOpen now r \<and> p \<in> set (connectedIds r))
        \<and> (\<not> ok \<longrightarrow> r' = r)
        \<and> (ok \<longrightarrow> replayVotes r' p = Some v
                 \<and> (\<forall>q. q \<noteq> p \<longrightarrow> replayVotes r' q = replayVotes r q)
                 \<and> roomPlayers r' = roomPlayers r \<and> replayDeadline r' = replayDeadline r)"
    by (rule castReplayVote_live)
next
  show "checkReplayVotes now r =
        (if \<not> voteOpen now r then rejected
         else if \<not> everyoneVoted (connectedIds r) (replayVotes r) then pending
         else if everyoneYes (connectedIds r) (replayVotes r) then accepted else rejected)"
    by (rule checkReplayVotes_live)
qed

theorem replay_vote_voter_sets_witness:
  "distinct (map pid (roomPlayers playedRoom))
   \<and> (\<exists>m'. startReplayVote 100 playedRoom None (newReplayManager None) = (True, m')
          \<and> (\<exists>vs. openVote m' ''r1'' = Some vs \<and> requiredVoters vs = [''a'', ''b'', ''c'']))
   \<and> openVote startedVote ''r1'' = Some firstState \<and> voteStateOk firstState
   \<and> castVote ''r1'' ''d'' True startedVote = (False, startedVote)
   \<and> (\<exists>m'. castVote ''r1'' ''a'' True startedVote = (True, m')
          \<and> events m' = events startedVote @ [vote_cast ''r1'' ''a'' True])
   \<and> (\<exists>r'. castReplayVote 101 voteRoom ''a'' True = (True, r') \<and> replayVotes r' ''a'' = Some True)
   \<and> checkReplayVotes 101 voteRoom = pending"
proof -
  have d: "distinct (map pid (roomPlayers playedRoom))" by code_simp
  have f: "status (roomGame playedRoom) = finished \<and> roomId playedRoom = ''r1''
           \<and> connectedIds playedRoom = [''a'', ''b'', ''c'']" by code_simp
  have ov: "openVote startedVote ''r1'' = Some firstState" by code_simp
  have wf: "voteStateOk firstState" by code_simp
  have rq: "requiredVoters firstState = [''a'', ''b'', ''c'']" by code_simp
  have nev: "\<not> everyoneVoted (requiredVoters firstState) ((tally firstState)(''a'' \<mapsto> True))"
    by code_simp
  have o: "voteOpen 101 voteRoom" by code_simp
  have a: "''a'' \<in> set (connectedIds voteRoom)" by code_simp
  have nv: "\<not> everyoneVoted (connectedIds voteRoom) (replayVotes voteRoom)" by code_simp
  note t1 = replay_vote_voter_sets [of playedRoom 100 None "newReplayManager None"
              startedVote "''r1''" firstState "''d''" True 101 voteRoom]
  note t2 = replay_vote_voter_sets [of playedRoom 100 None "newReplayManager None"
              startedVote "''r1''" firstState "''a''" True 101 voteRoom]
  from t1 d f have s: "\<exists>m'. startReplayVote 100 playedRoom None (newReplayManager None) = (True, m')
          \<and> (\<exists>vs. openVote m' ''r1'' = Some vs \<and> requiredVoters vs = [''a'', ''b'', ''c''])"
    by auto
  from t1 ov wf rq have c1: "castVote ''r1'' ''d'' True startedVote = (False, startedVote)"
    by auto
  from t2 ov wf rq nev have c2: "\<exists>m'. castVote ''r1'' ''a'' True startedVote = (True, m')
          \<and> events m' = events startedVote @ [vote_cast ''r1'' ''a'' True]"
    by auto
  from t2 o a have c3: "\<exists>r'. castReplayVote 101 voteRoom ''a'' True = (True, r')
          \<and> replayVotes r' ''a'' = Some True"
    by auto
  from t2 o nv have c4: "checkReplayVotes 101 voteRoom = pending" by simp
  from d s ov wf c1 c2 c3 c4 show ?thesis by blast
qed

section \<open>The match owns copies of the room's player records\<close>




end
